theory Spec2Isabelle
  imports Main
begin

section \<open>Containers of the C++ standard library\<close>

text \<open>
  \<^verbatim>\<open>std::set<T>\<close> is a strictly ascending list; traversing the list is the
  iteration of \<^verbatim>\<open>BOOST_FOREACH\<close>. \<^verbatim>\<open>set_insert\<close> is \<^verbatim>\<open>std::set::insert\<close>:
  an element that is already present is left alone.
\<close>

fun set_insert :: "'a::linorder \<Rightarrow> 'a list \<Rightarrow> 'a list" where
  "set_insert x [] = [x]"
| "set_insert x (y # ys) =
     (if x < y then x # y # ys
      else if x = y then y # ys
      else y # set_insert x ys)"

text \<open>
  \<^verbatim>\<open>std::map<long, T>\<close> is an association list with strictly ascending keys.
  \<^verbatim>\<open>map_of\<close> is \<^verbatim>\<open>find\<close>, \<^verbatim>\<open>map_count\<close> is \<^verbatim>\<open>count\<close> and
  \<^verbatim>\<open>map_assign k x m\<close> is the statement \<^verbatim>\<open>m[k] = x\<close>.
\<close>

definition map_count :: "(int \<times> 'v) list \<Rightarrow> int \<Rightarrow> nat" where
  "map_count m k = (case map_of m k of None \<Rightarrow> 0 | Some _ \<Rightarrow> 1)"

fun map_assign :: "int \<Rightarrow> 'v \<Rightarrow> (int \<times> 'v) list \<Rightarrow> (int \<times> 'v) list" where
  "map_assign k x [] = [(k, x)]"
| "map_assign k x (e # m) =
     (if k < fst e then (k, x) # e # m
      else if k = fst e then (k, x) # m
      else e # map_assign k x m)"

subsection \<open>Facts about the containers\<close>

lemma set_set_insert: "set (set_insert x s) = insert x (set s)"
  by (induction s) auto

lemma sorted_set_insert: "sorted_wrt (<) s \<Longrightarrow> sorted_wrt (<) (set_insert x s)"
  by (induction s) (auto simp: set_set_insert)

lemma map_of_map_assign: "map_of (map_assign k x m) = (map_of m)(k \<mapsto> x)"
  by (induction m) (auto simp: fun_eq_iff)

lemma keys_map_assign: "fst ` set (map_assign k x m) = insert k (fst ` set m)"
  by (induction m) auto

lemma sorted_map_assign:
  "sorted_wrt (<) (map fst m) \<Longrightarrow> sorted_wrt (<) (map fst (map_assign k x m))"
proof (induction m)
  case Nil
  then show ?case by simp
next
  case (Cons e m)
  have "set (map fst (map_assign k x m)) = insert k (fst ` set m)"
    using keys_map_assign[of k x m] by simp
  with Cons show ?case by auto
qed

section \<open>Data model\<close>

text \<open>
  The headers \<^verbatim>\<open>dependencies.hpp\<close>, \<^verbatim>\<open>variables.hpp\<close> and \<^verbatim>\<open>expression.hpp\<close> are
  not part of the sources at hand; the types below are the ones the code of
  \<^verbatim>\<open>dependencies.cpp\<close> uses, with the members it reads and writes.

  A \<^verbatim>\<open>pVariable\<close> is a shared pointer: an address, with the variable objects in a
  heap that the code below only reads. The pointers of a \<^verbatim>\<open>VariableSet\<close> and of a
  scope are dereferenced without a test and are non-null; the only null
  \<^verbatim>\<open>pVariable\<close> the code produces is the member \<^verbatim>\<open>v\<close> of a default-constructed
  \<^verbatim>\<open>VarInfo\<close>, so that member (\<^verbatim>\<open>vi_v\<close> here) and the entries of a
  \<^verbatim>\<open>VariableList\<close> are options. A \<^verbatim>\<open>VariableSet\<close> is a \<^verbatim>\<open>std::set\<close> of
  pointers, ordered by address. The local variable \<^verbatim>\<open>id\<close> of the source is
  \<^verbatim>\<open>idn\<close> here.
\<close>

type_synonym DependencySet = "int list"

type_synonym Expression = "int list"

text \<open>
  Modelled from the spec: the expression type and the visitor
  \<^verbatim>\<open>DependenciesGetter\<close> (expression.hpp) are missing. An expression is
  represented by the identifiers of the variables it reads, in the order of
  their occurrence, and the visitor collects them into a \<^verbatim>\<open>DependencySet\<close>.
\<close>

definition DependenciesGetter :: "Expression \<Rightarrow> DependencySet" where
  "DependenciesGetter e = fold set_insert e []"

record Variable =
  getId :: int
  isConstant :: bool
  getExpression :: Expression

type_synonym pVariable = nat

type_synonym heap = "pVariable \<Rightarrow> Variable"

type_synonym VariableSet = "pVariable list"

type_synonym VariableList = "pVariable option list"

datatype BlockVariables =
  BlockVariables (getVariables: "(string \<times> pVariable) list") (getChildren: "BlockVariables list")

record VarInfo =
  vi_v :: "pVariable option"
  dependsOn :: DependencySet
  modifies :: DependencySet
  counter :: int

type_synonym DepMap = "(int \<times> VarInfo) list"

text \<open>
  A \<^verbatim>\<open>VarInfo*\<close> always points to a node of the map \<^verbatim>\<open>dependencies\<close>: the map is
  the store, and the address of a node is its key (the nodes of a
  \<^verbatim>\<open>std::map\<close> never move). Reading through a pointer that is not a key of the
  store is the error \<^verbatim>\<open>InvalidPointer\<close>.
\<close>

type_synonym pVarInfo = int

type_synonym RefDepMap = "(int \<times> pVarInfo) list"

record DependencyMap =
  blockVars :: BlockVariables
  dependencies :: DepMap

text \<open>
  The ways a call can end without a result: the exception that
  \<^verbatim>\<open>constructMapRecursive\<close> throws, the two assertions of \<^verbatim>\<open>makeUpdateOrder\<close>
  (\<^verbatim>\<open>assert(nextEval != 0)\<close> and \<^verbatim>\<open>assert(vi->counter >= 0)\<close>, taken as compiled
  in: a failed assertion ends the program), and a read through an invalid pointer.
\<close>

datatype error =
    SchnekException
  | AssertNextEval
  | AssertCounter
  | InvalidPointer

text \<open>
  What the caller of a function gets of an error. \<^verbatim>\<open>throw SchnekException()\<close>
  unwinds to the caller, who can catch it. A failed \<^verbatim>\<open>assert\<close> writes a message
  and calls \<^verbatim>\<open>abort\<close>: the process ends and nothing reaches the caller. A read
  through an invalid pointer is undefined behaviour and reports nothing either.
\<close>

fun reaches_caller :: "error \<Rightarrow> bool" where
  "reaches_caller SchnekException = True"
| "reaches_caller AssertNextEval = False"
| "reaches_caller AssertCounter = False"
| "reaches_caller InvalidPointer = False"

text \<open>
  Modelled from the spec: the struct \<^verbatim>\<open>VarInfo\<close> and its constructors are
  declared in the missing header. A node that \<^verbatim>\<open>operator[]\<close> inserts is
  default-initialised: a null \<^verbatim>\<open>v\<close> and two empty sets; the other constructor
  stores its three arguments. No code at hand says what the constructors leave in
  \<^verbatim>\<open>counter\<close>: the parameter \<^verbatim>\<open>counter0\<close> gives that value for the node of each
  identifier. The counter is a C++ \<^verbatim>\<open>int\<close> that holds at most the size of a
  \<^verbatim>\<open>dependsOn\<close> set and never overflows; it is an \<^verbatim>\<open>int\<close> here.
\<close>

definition VarInfo_default :: "int \<Rightarrow> VarInfo" where
  "VarInfo_default c = \<lparr>vi_v = None, dependsOn = [], modifies = [], counter = c\<rparr>"

definition VarInfo_init :: "pVariable \<Rightarrow> DependencySet \<Rightarrow> DependencySet \<Rightarrow> int \<Rightarrow> VarInfo" where
  "VarInfo_init v dep mods c = \<lparr>vi_v = Some v, dependsOn = dep, modifies = mods, counter = c\<rparr>"

text \<open>
  \<^verbatim>\<open>at_update counter0 id f deps\<close> is a write through \<^verbatim>\<open>dependencies[id]\<close>:
  \<^verbatim>\<open>operator[]\<close> inserts a default-constructed node when the key is absent, and
  \<^verbatim>\<open>f\<close> is what the statement does to the node. \<^verbatim>\<open>subscript\<close> is the bare
  \<^verbatim>\<open>&(dependencies[id])\<close>: the map after the access (the address is \<^verbatim>\<open>id\<close>).
\<close>

definition at_update :: "(int \<Rightarrow> int) \<Rightarrow> int \<Rightarrow> (VarInfo \<Rightarrow> VarInfo) \<Rightarrow> DepMap \<Rightarrow> DepMap" where
  "at_update counter0 idn f deps =
     map_assign idn (f (case map_of deps idn of
                         None \<Rightarrow> VarInfo_default (counter0 idn)
                       | Some n \<Rightarrow> n)) deps"

definition subscript :: "(int \<Rightarrow> int) \<Rightarrow> DepMap \<Rightarrow> int \<Rightarrow> DepMap" where
  "subscript counter0 deps idn = at_update counter0 idn (\<lambda>n. n) deps"

section \<open>DependencyMap: construction\<close>

text \<open>
  The first loop of \<^verbatim>\<open>constructMapRecursive\<close>, over the variables
  of one scope.
\<close>

fun constructMapVariables ::
  "heap \<Rightarrow> (int \<Rightarrow> int) \<Rightarrow> (string \<times> pVariable) list \<Rightarrow> DepMap \<Rightarrow> error + DepMap" where
  "constructMapVariables H counter0 [] deps = Inr deps"
| "constructMapVariables H counter0 (it # rest) deps =
     (let v = snd it in
      if \<not> isConstant (H v) then
        (let dep = DependenciesGetter (getExpression (H v));
             idn = getId (H v)
         in if map_count deps idn > 0 then Inl SchnekException
            else constructMapVariables H counter0 rest
                   (map_assign idn (VarInfo_init v dep [] (counter0 idn)) deps))
      else constructMapVariables H counter0 rest deps)"

fun constructMapRecursive ::
  "heap \<Rightarrow> (int \<Rightarrow> int) \<Rightarrow> BlockVariables \<Rightarrow> DepMap \<Rightarrow> error + DepMap"
and constructMapChildren ::
  "heap \<Rightarrow> (int \<Rightarrow> int) \<Rightarrow> BlockVariables list \<Rightarrow> DepMap \<Rightarrow> error + DepMap" where
  "constructMapRecursive H counter0 (BlockVariables vs chs) deps =
     (case constructMapVariables H counter0 vs deps of
        Inl e \<Rightarrow> Inl e
      | Inr deps' \<Rightarrow> constructMapChildren H counter0 chs deps')"
| "constructMapChildren H counter0 [] deps = Inr deps"
| "constructMapChildren H counter0 (ch # chs) deps =
     (case constructMapRecursive H counter0 ch deps of
        Inl e \<Rightarrow> Inl e
      | Inr deps' \<Rightarrow> constructMapChildren H counter0 chs deps')"

text \<open>
  The body of the outer loop of \<^verbatim>\<open>constructMap\<close> for one entry: every
  identifier of \<^verbatim>\<open>entry.second.dependsOn\<close> gets \<^verbatim>\<open>entry.first\<close> in its
  \<^verbatim>\<open>modifies\<close>.
\<close>

definition insertModifies :: "(int \<Rightarrow> int) \<Rightarrow> int \<times> VarInfo \<Rightarrow> DepMap \<Rightarrow> DepMap" where
  "insertModifies counter0 entry deps =
     fold (\<lambda>idn d. at_update counter0 idn (\<lambda>n. n\<lparr>modifies := set_insert (fst entry) (modifies n)\<rparr>) d)
          (dependsOn (snd entry)) deps"

text \<open>
  The universe of a map: its keys and the identifiers its nodes depend on. No
  statement of the code inserts a key outside the universe of the map it works on.
\<close>

definition universe :: "DepMap \<Rightarrow> int set" where
  "universe deps = fst ` set deps \<union> (\<Union>e \<in> set deps. set (dependsOn (snd e)))"

lemma set_map_assign_sub: "set (map_assign k x m) \<subseteq> insert (k, x) (set m)"
  by (induction m) auto

lemma set_map_assign_mem: "(k, x) \<in> set (map_assign k x m)"
  by (induction m) auto

lemma set_map_assign_sup:
  "e \<in> set m \<Longrightarrow> e \<in> set (map_assign k x m) \<or> (fst e = k \<and> map_of m k = Some (snd e))"
  by (induction m) auto

lemma universe_at_update:
  assumes "\<And>n. dependsOn (f n) = dependsOn n"
  shows "universe (at_update counter0 i f deps) = insert i (universe deps)"
proof -
  define n0 where "n0 = (case map_of deps i of None \<Rightarrow> VarInfo_default (counter0 i) | Some n \<Rightarrow> n)"
  have upd: "at_update counter0 i f deps = map_assign i (f n0) deps"
    by (simp add: at_update_def n0_def)
  have n0: "set (dependsOn n0) \<subseteq> universe deps"
  proof (cases "map_of deps i")
    case None
    then show ?thesis by (simp add: n0_def VarInfo_default_def)
  next
    case (Some n)
    then have "(i, n) \<in> set deps" by (rule map_of_SomeD)
    then show ?thesis using Some by (force simp: n0_def universe_def)
  qed
  show ?thesis
  proof (rule set_eqI, rule iffI)
    fix b assume "b \<in> universe (at_update counter0 i f deps)"
    then consider e where "e \<in> set (map_assign i (f n0) deps)" "b = fst e \<or> b \<in> set (dependsOn (snd e))"
      unfolding upd universe_def by auto
    then show "b \<in> insert i (universe deps)"
    proof cases
      case 1
      then have "e = (i, f n0) \<or> e \<in> set deps" using set_map_assign_sub[of i "f n0" deps] by auto
      then show ?thesis using 1(2) n0 assms by (auto simp: universe_def)
    qed
  next
    fix b assume b: "b \<in> insert i (universe deps)"
    have i: "(i, f n0) \<in> set (map_assign i (f n0) deps)" by (rule set_map_assign_mem)
    show "b \<in> universe (at_update counter0 i f deps)"
    proof (cases "b = i")
      case True
      then show ?thesis using i unfolding upd universe_def by force
    next
      case False
      then obtain e where e: "e \<in> set deps" "b = fst e \<or> b \<in> set (dependsOn (snd e))"
        using b by (auto simp: universe_def)
      from set_map_assign_sup[OF e(1), of i "f n0"]
      show ?thesis
      proof
        assume "e \<in> set (map_assign i (f n0) deps)"
        then show ?thesis using e(2) unfolding upd universe_def by auto
      next
        assume a: "fst e = i \<and> map_of deps i = Some (snd e)"
        then have "n0 = snd e" by (simp add: n0_def)
        then have "b \<in> set (dependsOn (f n0))" using e(2) a False assms by auto
        then show ?thesis using i unfolding upd universe_def by force
      qed
    qed
  qed
qed

lemma finite_universe: "finite (universe deps)"
  by (simp add: universe_def)

lemma universe_fold_at_update:
  assumes "\<And>i n. dependsOn (f i n) = dependsOn n"
  shows "set ids \<subseteq> universe deps \<Longrightarrow>
     universe (fold (\<lambda>i d. at_update counter0 i (f i) d) ids deps) = universe deps"
proof (induction ids arbitrary: deps)
  case Nil
  then show ?case by simp
next
  case (Cons i ids)
  have "universe (at_update counter0 i (f i) deps) = universe deps"
    using universe_at_update[of "f i" counter0 i deps] assms Cons.prems by auto
  with Cons show ?case by simp
qed

lemma universe_insertModifies:
  "entry \<in> set deps \<Longrightarrow> universe (insertModifies counter0 entry deps) = universe deps"
  unfolding insertModifies_def
  by (rule universe_fold_at_update) (auto simp: universe_def)

text \<open>
  The outer loop of \<^verbatim>\<open>constructMap\<close> runs over the map while its body inserts
  into it: the iterator goes on to the next key of the map as it is then, so a
  node inserted behind the iterator is skipped and one inserted ahead of it is
  visited. \<^verbatim>\<open>cur\<close> is the key the iterator has just left (\<^verbatim>\<open>None\<close> before
  the first entry).
\<close>

definition nextEntry :: "int option \<Rightarrow> DepMap \<Rightarrow> (int \<times> VarInfo) option" where
  "nextEntry cur deps =
     List.find (\<lambda>e. case cur of None \<Rightarrow> True | Some c \<Rightarrow> c < fst e) deps"

lemma nextEntry_SomeD:
  "nextEntry cur deps = Some entry \<Longrightarrow>
     entry \<in> set deps \<and> (case cur of None \<Rightarrow> True | Some c \<Rightarrow> c < fst entry)"
  by (auto simp: nextEntry_def find_Some_iff)

function inversePass :: "(int \<Rightarrow> int) \<Rightarrow> int option \<Rightarrow> DepMap \<Rightarrow> DepMap" where
  "inversePass counter0 cur deps =
     (case nextEntry cur deps of
        None \<Rightarrow> deps
      | Some entry \<Rightarrow> inversePass counter0 (Some (fst entry)) (insertModifies counter0 entry deps))"
  by pat_completeness auto
termination
proof (relation "measure (\<lambda>(counter0, cur, deps).
          card {k \<in> universe deps. case cur of None \<Rightarrow> True | Some c \<Rightarrow> c < k})")
  show "wf (measure (\<lambda>(counter0, cur, deps).
          card {k \<in> universe deps. case cur of None \<Rightarrow> True | Some c \<Rightarrow> c < k}))"
    by simp
next
  fix counter0 :: "int \<Rightarrow> int" and cur deps entry
  assume "nextEntry cur deps = Some entry"
  then have e: "entry \<in> set deps" and c: "case cur of None \<Rightarrow> True | Some c \<Rightarrow> c < fst entry"
    using nextEntry_SomeD by blast+
  have u: "universe (insertModifies counter0 entry deps) = universe deps"
    using e by (rule universe_insertModifies)
  have k: "fst entry \<in> universe deps" using e by (auto simp: universe_def)
  have "{k \<in> universe deps. fst entry < k} \<subset> {k \<in> universe deps. case cur of None \<Rightarrow> True | Some c \<Rightarrow> c < k}"
    using c k by (auto split: option.splits)
  then have "card {k \<in> universe deps. fst entry < k} < card {k \<in> universe deps. case cur of None \<Rightarrow> True | Some c \<Rightarrow> c < k}"
    by (intro psubset_card_mono) (simp_all add: finite_universe)
  then show "((counter0, Some (fst entry), insertModifies counter0 entry deps), (counter0, cur, deps))
       \<in> measure (\<lambda>(counter0, cur, deps).
          card {k \<in> universe deps. case cur of None \<Rightarrow> True | Some c \<Rightarrow> c < k})"
    by (simp add: u)
qed

definition constructMap :: "heap \<Rightarrow> (int \<Rightarrow> int) \<Rightarrow> BlockVariables \<Rightarrow> DepMap \<Rightarrow> error + DepMap" where
  "constructMap H counter0 vars deps =
     (case constructMapRecursive H counter0 vars deps of
        Inl e \<Rightarrow> Inl e
      | Inr deps' \<Rightarrow> Inr (inversePass counter0 None deps'))"

text \<open>
  The constructor: the member \<^verbatim>\<open>dependencies\<close> is empty when \<^verbatim>\<open>constructMap\<close>
  starts, and an exception leaves no object.
\<close>

definition DependencyMap_new :: "heap \<Rightarrow> (int \<Rightarrow> int) \<Rightarrow> BlockVariables \<Rightarrow> error + DependencyMap" where
  "DependencyMap_new H counter0 vars =
     (case constructMap H counter0 vars [] of
        Inl e \<Rightarrow> Inl e
      | Inr deps \<Rightarrow> Inr \<lparr>blockVars = vars, dependencies = deps\<rparr>)"

definition getBlockVariables :: "DependencyMap \<Rightarrow> BlockVariables" where
  "getBlockVariables dm = blockVars dm"

section \<open>DependencyMap: resetCounters\<close>

text \<open>
  \<^verbatim>\<open>BOOST_FOREACH(DepMap::value_type entry, dependencies)\<close> declares the loop
  variable by value: \<^verbatim>\<open>entry\<close> is a copy of the pair in the map. The body
  assigns to the \<^verbatim>\<open>counter\<close> of the copy, and the copy is dropped at the end of
  the iteration; nothing is written to the map.
\<close>

definition resetCounters_body :: "int \<times> VarInfo \<Rightarrow> int \<times> VarInfo" where
  "resetCounters_body entry =
     (fst entry, (snd entry)\<lparr>counter := int (length (dependsOn (snd entry)))\<rparr>)"

definition resetCounters :: "DependencyMap \<Rightarrow> DependencyMap" where
  "resetCounters dm =
     fold (\<lambda>entry dm'. let entry' = resetCounters_body entry in dm') (dependencies dm) dm"

section \<open>DependencyMap: makeUpdateList\<close>

definition predInit ::
  "heap \<Rightarrow> (int \<Rightarrow> int) \<Rightarrow> pVariable \<Rightarrow> DepMap \<times> pVarInfo list \<times> RefDepMap
     \<Rightarrow> DepMap \<times> pVarInfo list \<times> RefDepMap" where
  "predInit H counter0 v st =
     (case st of (deps, workingSet, predecessors) \<Rightarrow>
        let idn = getId (H v);
            deps' = subscript counter0 deps idn;
            vi = idn
        in (deps', workingSet @ [vi], map_assign idn vi predecessors))"

definition predVisit ::
  "(int \<Rightarrow> int) \<Rightarrow> int \<Rightarrow> DepMap \<times> pVarInfo list \<times> RefDepMap
     \<Rightarrow> DepMap \<times> pVarInfo list \<times> RefDepMap" where
  "predVisit counter0 idn st =
     (case st of (deps, workingSet, predecessors) \<Rightarrow>
        if map_count predecessors idn > 0 then st
        else let deps' = subscript counter0 deps idn;
                 pred = idn
             in (deps', workingSet @ [pred], map_assign idn pred predecessors))"

lemma universe_subscript: "universe (subscript counter0 deps i) = insert i (universe deps)"
  unfolding subscript_def by (rule universe_at_update) simp

lemma map_count_pos: "(map_count m k > 0) = (k \<in> fst ` set m)"
  using dom_map_of_conv_image_fst[of m] by (auto simp: map_count_def split: option.splits)

lemma fold_predVisit:
  "fold (predVisit counter0) ids (deps, ws, preds) = (deps', ws', preds') \<Longrightarrow>
   universe deps' = universe deps \<union> (set ids - fst ` set preds) \<and>
   fst ` set preds' = fst ` set preds \<union> set ids \<and>
   set ws' = set ws \<union> (set ids - fst ` set preds) \<and>
   (set ids \<subseteq> fst ` set preds \<longrightarrow> ws' = ws \<and> deps' = deps \<and> preds' = preds)"
proof (induction ids arbitrary: deps ws preds)
  case Nil
  then show ?case by simp
next
  case (Cons i ids)
  show ?case
  proof (cases "i \<in> fst ` set preds")
    case True
    then have "predVisit counter0 i (deps, ws, preds) = (deps, ws, preds)"
      by (simp add: predVisit_def map_count_pos)
    with Cons.prems have "fold (predVisit counter0) ids (deps, ws, preds) = (deps', ws', preds')"
      by simp
    from Cons.IH[OF this] True show ?thesis by auto
  next
    case False
    then have "predVisit counter0 i (deps, ws, preds) =
        (subscript counter0 deps i, ws @ [i], map_assign i i preds)"
      by (simp add: predVisit_def map_count_pos)
    with Cons.prems have "fold (predVisit counter0) ids
        (subscript counter0 deps i, ws @ [i], map_assign i i preds) = (deps', ws', preds')"
      by simp
    from Cons.IH[OF this] False show ?thesis
      by (auto simp: universe_subscript keys_map_assign)
  qed
qed

function predLoop ::
  "(int \<Rightarrow> int) \<Rightarrow> DepMap \<Rightarrow> pVarInfo list \<Rightarrow> RefDepMap \<Rightarrow> error + DepMap \<times> RefDepMap" where
  "predLoop counter0 deps [] predecessors = Inr (deps, predecessors)"
| "predLoop counter0 deps (vi # workingSet) predecessors =
     (case map_of deps vi of
        None \<Rightarrow> Inl InvalidPointer
      | Some n \<Rightarrow>
          (case fold (predVisit counter0) (dependsOn n) (deps, workingSet, predecessors) of
             (deps', workingSet', predecessors') \<Rightarrow>
               predLoop counter0 deps' workingSet' predecessors'))"
  by pat_completeness auto
termination
proof (relation "measures [\<lambda>(counter0, deps, ws, preds). card (universe deps - fst ` set preds),
                           \<lambda>(counter0, deps, ws, preds). length ws]", goal_cases)
  case 1
  then show ?case by simp
next
  case (2 counter0 deps vi ws preds n deps' y ws' preds')
  then have f: "fold (predVisit counter0) (dependsOn n) (deps, ws, preds) = (deps', ws', preds')"
    by simp
  from 2 have "(vi, n) \<in> set deps" by (auto dest: map_of_SomeD)
  then have sub: "set (dependsOn n) \<subseteq> universe deps" by (force simp: universe_def)
  note F = fold_predVisit[OF f]
  have u: "universe deps' = universe deps" using F sub by auto
  show ?case
  proof (cases "set (dependsOn n) \<subseteq> fst ` set preds")
    case True
    then have "ws' = ws" "preds' = preds" using F by auto
    then show ?thesis by (simp add: u)
  next
    case False
    have "universe deps - fst ` set preds' \<subset> universe deps - fst ` set preds"
      using F False sub by auto
    then have "card (universe deps - fst ` set preds') < card (universe deps - fst ` set preds)"
      by (intro psubset_card_mono) (simp_all add: finite_universe)
    then show ?thesis by (simp add: u)
  qed
qed

definition makeUpdatePredecessors ::
  "heap \<Rightarrow> (int \<Rightarrow> int) \<Rightarrow> VariableSet \<Rightarrow> DepMap \<Rightarrow> error + DepMap \<times> RefDepMap" where
  "makeUpdatePredecessors H counter0 dependentVars deps =
     (case fold (predInit H counter0) dependentVars (deps, [], []) of
        (deps', workingSet, predecessors) \<Rightarrow> predLoop counter0 deps' workingSet predecessors)"

definition follInit ::
  "heap \<Rightarrow> RefDepMap \<Rightarrow> pVariable \<Rightarrow> pVarInfo list \<times> RefDepMap \<Rightarrow> pVarInfo list \<times> RefDepMap" where
  "follInit H predecessors v st =
     (case st of (workingSet, followers) \<Rightarrow>
        let idn = getId (H v)
        in (case map_of predecessors idn of
              None \<Rightarrow> st
            | Some vi \<Rightarrow> (workingSet @ [vi], map_assign idn vi followers)))"

definition follVisit ::
  "RefDepMap \<Rightarrow> int \<Rightarrow> pVarInfo list \<times> RefDepMap \<Rightarrow> pVarInfo list \<times> RefDepMap" where
  "follVisit predecessors idn st =
     (case st of (workingSet, followers) \<Rightarrow>
        if map_count followers idn > 0 then st
        else (case map_of predecessors idn of
                None \<Rightarrow> st
              | Some foll \<Rightarrow> (workingSet @ [foll], map_assign idn foll followers)))"

lemma fold_follVisit:
  "fold (follVisit preds) ids (ws, foll) = (ws', foll') \<Longrightarrow>
   fst ` set foll' = fst ` set foll \<union> (set ids \<inter> fst ` set preds) \<and>
   (set ids \<inter> fst ` set preds \<subseteq> fst ` set foll \<longrightarrow> ws' = ws \<and> foll' = foll)"
proof (induction ids arbitrary: ws foll)
  case Nil
  then show ?case by simp
next
  case (Cons i ids)
  show ?case
  proof (cases "i \<in> fst ` set foll \<or> i \<notin> fst ` set preds")
    case True
    then have "follVisit preds i (ws, foll) = (ws, foll)"
      using dom_map_of_conv_image_fst[of preds]
      by (auto simp: follVisit_def map_count_pos split: option.splits)
    with Cons.prems have "fold (follVisit preds) ids (ws, foll) = (ws', foll')"
      by simp
    from Cons.IH[OF this] True show ?thesis by auto
  next
    case False
    then obtain p where p: "map_of preds i = Some p"
      using dom_map_of_conv_image_fst[of preds] by auto
    with False have "follVisit preds i (ws, foll) = (ws @ [p], map_assign i p foll)"
      by (simp add: follVisit_def map_count_pos)
    with Cons.prems have "fold (follVisit preds) ids (ws @ [p], map_assign i p foll) = (ws', foll')"
      by simp
    from Cons.IH[OF this] False show ?thesis
      by (auto simp: keys_map_assign)
  qed
qed

function follLoop ::
  "DepMap \<Rightarrow> RefDepMap \<Rightarrow> pVarInfo list \<Rightarrow> RefDepMap \<Rightarrow> error + RefDepMap" where
  "follLoop deps predecessors [] followers = Inr followers"
| "follLoop deps predecessors (vi # workingSet) followers =
     (case map_of deps vi of
        None \<Rightarrow> Inl InvalidPointer
      | Some n \<Rightarrow>
          (case fold (follVisit predecessors) (modifies n) (workingSet, followers) of
             (workingSet', followers') \<Rightarrow> follLoop deps predecessors workingSet' followers'))"
  by pat_completeness auto
termination
proof (relation "measures [\<lambda>(deps, preds, ws, foll). card (fst ` set preds - fst ` set foll),
                           \<lambda>(deps, preds, ws, foll). length ws]", goal_cases)
  case 1
  then show ?case by simp
next
  case (2 deps preds vi ws foll n ws' foll')
  then have f: "fold (follVisit preds) (modifies n) (ws, foll) = (ws', foll')"
    by simp
  note F = fold_follVisit[OF f]
  show ?case
  proof (cases "set (modifies n) \<inter> fst ` set preds \<subseteq> fst ` set foll")
    case True
    then have "ws' = ws" "foll' = foll" using F by auto
    then show ?thesis by simp
  next
    case False
    have "fst ` set preds - fst ` set foll' \<subset> fst ` set preds - fst ` set foll"
      using F False by auto
    then have "card (fst ` set preds - fst ` set foll') < card (fst ` set preds - fst ` set foll)"
      by (intro psubset_card_mono) simp_all
    then show ?thesis by simp
  qed
qed

definition makeUpdateFollowers ::
  "heap \<Rightarrow> VariableSet \<Rightarrow> RefDepMap \<Rightarrow> DepMap \<Rightarrow> error + RefDepMap" where
  "makeUpdateFollowers H independentVars predecessors deps =
     (case fold (follInit H predecessors) independentVars ([], []) of
        (workingSet, followers) \<Rightarrow> follLoop deps predecessors workingSet followers)"

definition countDeps :: "RefDepMap \<Rightarrow> DependencySet \<Rightarrow> int" where
  "countDeps deps ids = fold (\<lambda>idn count. if map_count deps idn > 0 then count + 1 else count) ids 0"

fun initCounters ::
  "RefDepMap \<Rightarrow> RefDepMap \<Rightarrow> DepMap \<Rightarrow> pVarInfo list \<Rightarrow> error + DepMap \<times> pVarInfo list" where
  "initCounters deps [] store workingSet = Inr (store, workingSet)"
| "initCounters deps (entry # rest) store workingSet =
     (let vi = snd entry in
      case map_of store vi of
        None \<Rightarrow> Inl InvalidPointer
      | Some n \<Rightarrow>
          initCounters deps rest
            (map_assign vi (n\<lparr>counter := countDeps deps (dependsOn n)\<rparr>) store)
            (workingSet @ [vi]))"

fun findNextEval :: "DepMap \<Rightarrow> pVarInfo list \<Rightarrow> error + pVarInfo \<times> pVarInfo list" where
  "findNextEval store [] = Inl AssertNextEval"
| "findNextEval store (p # ps) =
     (case map_of store p of
        None \<Rightarrow> Inl InvalidPointer
      | Some n \<Rightarrow>
          if counter n = 0 then Inr (p, ps)
          else (case findNextEval store ps of
                  Inl e \<Rightarrow> Inl e
                | Inr (nextEval, rest) \<Rightarrow> Inr (nextEval, p # rest)))"

fun decrementCounters :: "RefDepMap \<Rightarrow> DependencySet \<Rightarrow> DepMap \<Rightarrow> error + DepMap" where
  "decrementCounters deps [] store = Inr store"
| "decrementCounters deps (idn # ids) store =
     (case map_of deps idn of
        None \<Rightarrow> decrementCounters deps ids store
      | Some vi \<Rightarrow>
          (case map_of store vi of
             None \<Rightarrow> Inl InvalidPointer
           | Some n \<Rightarrow>
               let n' = n\<lparr>counter := counter n - 1\<rparr>
               in if counter n' \<ge> 0
                  then decrementCounters deps ids (map_assign vi n' store)
                  else Inl AssertCounter))"

lemma findNextEval_length:
  "findNextEval store ws = Inr (p, ws') \<Longrightarrow> length ws = Suc (length ws')"
  by (induction ws arbitrary: p ws') (auto split: option.splits if_splits sum.splits)

function orderLoop ::
  "RefDepMap \<Rightarrow> DepMap \<Rightarrow> pVarInfo list \<Rightarrow> VariableList \<Rightarrow> error + DepMap \<times> VariableList" where
  "orderLoop deps store [] updateList = Inr (store, updateList)"
| "orderLoop deps store (w # ws) updateList =
     (case findNextEval store (w # ws) of
        Inl e \<Rightarrow> Inl e
      | Inr (nextEval, workingSet') \<Rightarrow>
          (case map_of store nextEval of
             None \<Rightarrow> Inl InvalidPointer
           | Some n \<Rightarrow>
               (case decrementCounters deps (modifies n) store of
                  Inl e \<Rightarrow> Inl e
                | Inr store' \<Rightarrow> orderLoop deps store' workingSet' (updateList @ [vi_v n]))))"
  by pat_completeness auto
termination
  by (relation "measure (\<lambda>(deps, store, ws, updateList). length ws)")
     (auto simp del: findNextEval.simps dest!: findNextEval_length)

definition makeUpdateOrder ::
  "VariableSet \<Rightarrow> RefDepMap \<Rightarrow> DepMap \<Rightarrow> error + DepMap \<times> VariableList" where
  "makeUpdateOrder independentVars deps store =
     (case initCounters deps deps store [] of
        Inl e \<Rightarrow> Inl e
      | Inr (store', workingSet) \<Rightarrow> orderLoop deps store' workingSet [])"

text \<open>
  \<^verbatim>\<open>makeUpdateList\<close> writes the counters of the nodes (and, through
  \<^verbatim>\<open>operator[]\<close>, may insert nodes), so it returns the map with the list. A failed
  assertion ends the program: no map and no list.
\<close>

definition makeUpdateList ::
  "heap \<Rightarrow> (int \<Rightarrow> int) \<Rightarrow> DependencyMap \<Rightarrow> VariableSet \<Rightarrow> VariableSet
     \<Rightarrow> error + DependencyMap \<times> VariableList" where
  "makeUpdateList H counter0 dm independentVars dependentVars =
     (case makeUpdatePredecessors H counter0 dependentVars (dependencies dm) of
        Inl e \<Rightarrow> Inl e
      | Inr (deps1, reverseDeps) \<Rightarrow>
          (case makeUpdateFollowers H independentVars reverseDeps deps1 of
             Inl e \<Rightarrow> Inl e
           | Inr deps \<Rightarrow>
               (case makeUpdateOrder independentVars deps deps1 of
                  Inl e \<Rightarrow> Inl e
                | Inr (deps2, updateList) \<Rightarrow> Inr (dm\<lparr>dependencies := deps2\<rparr>, updateList))))"

section \<open>DependencyUpdater\<close>

text \<open>
  Modelled from the spec: the class declaration is missing. Its members are the
  ones the code at hand names (\<^verbatim>\<open>dependencies\<close>, \<^verbatim>\<open>independentVars\<close>,
  \<^verbatim>\<open>dependentVars\<close>, \<^verbatim>\<open>isValid\<close>) and the cached list of the spec
  (\<^verbatim>\<open>updateList\<close>). The sets and the list are default-constructed: empty.
\<close>

record DependencyUpdater =
  upd_dependencies :: DependencyMap
  independentVars :: VariableSet
  dependentVars :: VariableSet
  updateList :: VariableList
  isValid :: bool

definition DependencyUpdater_new :: "DependencyMap \<Rightarrow> DependencyUpdater" where
  "DependencyUpdater_new dm =
     \<lparr>upd_dependencies = dm, independentVars = [], dependentVars = [],
      updateList = [], isValid = True\<rparr>"

definition addIndependent :: "DependencyUpdater \<Rightarrow> pVariable \<Rightarrow> DependencyUpdater" where
  "addIndependent u v = u\<lparr>independentVars := set_insert v (independentVars u), isValid := False\<rparr>"

definition addDependent :: "DependencyUpdater \<Rightarrow> pVariable \<Rightarrow> DependencyUpdater" where
  "addDependent u v = u\<lparr>dependentVars := set_insert v (dependentVars u), isValid := False\<rparr>"

section \<open>Notions used to state the properties\<close>

text \<open>
  The graph of a map: the identifiers a node depends on and the identifiers it
  modifies (empty for an identifier without a node), the variable of a node and
  its counter.
\<close>

definition dep_of :: "DepMap \<Rightarrow> int \<Rightarrow> int set" where
  "dep_of d k = (case map_of d k of None \<Rightarrow> {} | Some n \<Rightarrow> set (dependsOn n))"

definition mod_of :: "DepMap \<Rightarrow> int \<Rightarrow> int set" where
  "mod_of d k = (case map_of d k of None \<Rightarrow> {} | Some n \<Rightarrow> set (modifies n))"

definition node_v :: "DepMap \<Rightarrow> int \<Rightarrow> pVariable option" where
  "node_v d k = (case map_of d k of None \<Rightarrow> None | Some n \<Rightarrow> vi_v n)"

definition cnt :: "DepMap \<Rightarrow> int \<Rightarrow> int" where
  "cnt d k = (case map_of d k of None \<Rightarrow> 0 | Some n \<Rightarrow> counter n)"

text \<open>
  The variables of a scope tree in the order \<^verbatim>\<open>constructMapRecursive\<close> meets them,
  and the identifiers of those that are not constant.
\<close>

fun flatten :: "BlockVariables \<Rightarrow> (string \<times> pVariable) list" where
  "flatten (BlockVariables vs chs) = vs @ concat (map flatten chs)"

definition nodeIds :: "heap \<Rightarrow> (string \<times> pVariable) list \<Rightarrow> int list" where
  "nodeIds H vs = map (\<lambda>it. getId (H (snd it))) (filter (\<lambda>it. \<not> isConstant (H (snd it))) vs)"

text \<open>
  The invariant of a constructed map: \<^verbatim>\<open>modifies\<close> is the inverse of
  \<^verbatim>\<open>dependsOn\<close>, the two sets of every node are strictly ascending, and a node
  that has a variable is stored under the identifier of that variable.
\<close>

definition node_ok :: "heap \<Rightarrow> int \<Rightarrow> VarInfo \<Rightarrow> bool" where
  "node_ok H k n = (sorted_wrt (<) (dependsOn n) \<and> sorted_wrt (<) (modifies n) \<and>
     (case vi_v n of None \<Rightarrow> True | Some pv \<Rightarrow> getId (H pv) = k))"

definition wf_deps :: "heap \<Rightarrow> DepMap \<Rightarrow> bool" where
  "wf_deps H d = ((\<forall>x y. (y \<in> mod_of d x) = (x \<in> dep_of d y)) \<and>
     (\<forall>k n. map_of d k = Some n \<longrightarrow> node_ok H k n))"

text \<open>
  \<^verbatim>\<open>required d D\<close>: the identifiers \<^verbatim>\<open>D\<close> of the dependent variables and
  everything they reach along \<^verbatim>\<open>dependsOn\<close>. \<^verbatim>\<open>relevant d I D\<close>: what the
  identifiers \<^verbatim>\<open>I\<close> of the independent variables reach along \<^verbatim>\<open>modifies\<close>
  without leaving \<^verbatim>\<open>required d D\<close>: the relevant subgraph.
\<close>

inductive_set required :: "DepMap \<Rightarrow> int set \<Rightarrow> int set" for d :: DepMap and D :: "int set" where
  dependent: "k \<in> D \<Longrightarrow> k \<in> required d D"
| dependsOn: "a \<in> required d D \<Longrightarrow> b \<in> dep_of d a \<Longrightarrow> b \<in> required d D"

inductive_set relevant :: "DepMap \<Rightarrow> int set \<Rightarrow> int set \<Rightarrow> int set"
  for d :: DepMap and I :: "int set" and D :: "int set" where
  independent: "k \<in> I \<Longrightarrow> k \<in> required d D \<Longrightarrow> k \<in> relevant d I D"
| modifies: "a \<in> relevant d I D \<Longrightarrow> b \<in> mod_of d a \<Longrightarrow> b \<in> required d D \<Longrightarrow> b \<in> relevant d I D"

text \<open>
  A list \<^verbatim>\<open>K\<close> of identifiers is in topological order within \<^verbatim>\<open>F\<close> when every
  identifier of \<^verbatim>\<open>F\<close> that an entry depends on stands before the entry. The
  dependency edges inside \<^verbatim>\<open>F\<close>, and a cycle of such edges.
\<close>

definition topo :: "DepMap \<Rightarrow> int set \<Rightarrow> int list \<Rightarrow> bool" where
  "topo d F K = (\<forall>j < length K. dep_of d (K ! j) \<inter> F \<subseteq> set (take j K))"

definition dep_edges :: "DepMap \<Rightarrow> int set \<Rightarrow> (int \<times> int) set" where
  "dep_edges d F = {(a, b). a \<in> F \<and> b \<in> F \<and> b \<in> dep_of d a}"

definition has_cycle :: "DepMap \<Rightarrow> int set \<Rightarrow> bool" where
  "has_cycle d F = (\<exists>c. (c, c) \<in> (dep_edges d F)\<^sup>+)"

text \<open>
  \<^verbatim>\<open>extends_graph d d'\<close>: every node of \<^verbatim>\<open>d\<close> is a node of \<^verbatim>\<open>d'\<close> with the same
  variable, \<^verbatim>\<open>dependsOn\<close> and \<^verbatim>\<open>modifies\<close>, and a node that only \<^verbatim>\<open>d'\<close> has
  is as the default constructor leaves it: no variable and no edges.
\<close>

definition extends_graph :: "DepMap \<Rightarrow> DepMap \<Rightarrow> bool" where
  "extends_graph d d' = (\<forall>k.
     case map_of d k of
       Some n \<Rightarrow> (\<exists>n'. map_of d' k = Some n' \<and> vi_v n' = vi_v n \<and>
                     dependsOn n' = dependsOn n \<and> modifies n' = modifies n)
     | None \<Rightarrow> (case map_of d' k of
                  None \<Rightarrow> True
                | Some n' \<Rightarrow> vi_v n' = None \<and> dependsOn n' = [] \<and> modifies n' = []))"

text \<open>
  The maps a program can hold: the constructor is the only way to make one, and
  \<^verbatim>\<open>makeUpdateList\<close> and \<^verbatim>\<open>resetCounters\<close> are the only members that write to it.
\<close>

inductive built :: "heap \<Rightarrow> (int \<Rightarrow> int) \<Rightarrow> DependencyMap \<Rightarrow> bool"
  for H :: heap and counter0 :: "int \<Rightarrow> int" where
  constructed: "DependencyMap_new H counter0 vars = Inr dm \<Longrightarrow> built H counter0 dm"
| resolved: "built H counter0 dm \<Longrightarrow> makeUpdateList H counter0 dm iv dv = Inr (dm', ul) \<Longrightarrow>
     built H counter0 dm'"
| reset: "built H counter0 dm \<Longrightarrow> built H counter0 (resetCounters dm)"

subsection \<open>Invariants of the loops\<close>

text \<open>
  What \<^verbatim>\<open>constructMapRecursive\<close> leaves: ascending keys, and
  nodes without \<^verbatim>\<open>modifies\<close>.
\<close>

definition fresh_nodes :: "heap \<Rightarrow> DepMap \<Rightarrow> bool" where
  "fresh_nodes H d = (sorted_wrt (<) (map fst d) \<and>
     (\<forall>k n. map_of d k = Some n \<longrightarrow>
        modifies n = [] \<and> sorted_wrt (<) (dependsOn n) \<and> (\<forall>pv. vi_v n = Some pv \<longrightarrow> getId (H pv) = k)))"

text \<open>
  The invariant of the outer loop of \<^verbatim>\<open>constructMap\<close>: the
  entries up to \<^verbatim>\<open>cur\<close> are in the
  \<^verbatim>\<open>modifies\<close> of what they depend on.
\<close>

definition visited :: "int option \<Rightarrow> int \<Rightarrow> bool" where
  "visited cur y = (case cur of None \<Rightarrow> False | Some c \<Rightarrow> y \<le> c)"

definition pass_inv :: "heap \<Rightarrow> int option \<Rightarrow> DepMap \<Rightarrow> bool" where
  "pass_inv H cur d = (sorted_wrt (<) (map fst d) \<and>
     (\<forall>x y. (y \<in> mod_of d x) = (x \<in> dep_of d y \<and> visited cur y)) \<and>
     (\<forall>k n. map_of d k = Some n \<longrightarrow> node_ok H k n))"

text \<open>
  A map of pointers has ascending keys and every pointer is the address of the node of
  its key. \<^verbatim>\<open>with_defaults\<close>: a map with default nodes for the
  identifiers of \<^verbatim>\<open>A\<close> that had none.
\<close>

definition ref_ok :: "RefDepMap \<Rightarrow> bool" where
  "ref_ok m = (sorted_wrt (<) (map fst m) \<and> (\<forall>k p. map_of m k = Some p \<longrightarrow> p = k))"

definition with_defaults :: "(int \<Rightarrow> int) \<Rightarrow> DepMap \<Rightarrow> int set \<Rightarrow> int \<Rightarrow> VarInfo option" where
  "with_defaults counter0 d A k =
     (if k \<in> A \<and> map_of d k = None then Some (VarInfo_default (counter0 k)) else map_of d k)"

text \<open>The invariant of the loop of \<^verbatim>\<open>makeUpdatePredecessors\<close>.\<close>

definition pred_inv ::
  "(int \<Rightarrow> int) \<Rightarrow> DepMap \<Rightarrow> int set \<Rightarrow> DepMap \<Rightarrow> pVarInfo list \<Rightarrow> RefDepMap \<Rightarrow> bool" where
  "pred_inv counter0 d D dcur ws preds =
     (set ws \<subseteq> fst ` set preds \<and>
      fst ` set preds \<subseteq> required d D \<and>
      D \<subseteq> fst ` set preds \<and>
      (\<forall>a \<in> fst ` set preds - set ws. dep_of d a \<subseteq> fst ` set preds) \<and>
      ref_ok preds \<and>
      (\<forall>k. map_of dcur k = with_defaults counter0 d (fst ` set preds) k))"

text \<open>The invariant of the loop of \<^verbatim>\<open>makeUpdateFollowers\<close>.\<close>

definition foll_inv :: "DepMap \<Rightarrow> int set \<Rightarrow> int set \<Rightarrow> pVarInfo list \<Rightarrow> RefDepMap \<Rightarrow> bool" where
  "foll_inv d I D ws foll =
     (set ws \<subseteq> fst ` set foll \<and>
      fst ` set foll \<subseteq> relevant d I D \<and>
      I \<inter> required d D \<subseteq> fst ` set foll \<and>
      (\<forall>a \<in> fst ` set foll - set ws. mod_of d a \<inter> required d D \<subseteq> fst ` set foll) \<and>
      ref_ok foll)"

text \<open>Two stores with the same nodes up to the counters.\<close>

definition same_graph :: "DepMap \<Rightarrow> DepMap \<Rightarrow> bool" where
  "same_graph d d' = (\<forall>k.
     rel_option (\<lambda>n n'. vi_v n' = vi_v n \<and> dependsOn n' = dependsOn n \<and> modifies n' = modifies n)
       (map_of d k) (map_of d' k))"

text \<open>
  The invariant of the loop of \<^verbatim>\<open>makeUpdateOrder\<close>:
  \<^verbatim>\<open>K\<close> are the identifiers of the nodes already in the list, and
  the counter of a node is the number of its dependencies in
  \<^verbatim>\<open>F\<close> that are not yet in the list.
\<close>

definition order_inv ::
  "DepMap \<Rightarrow> int set \<Rightarrow> DepMap \<Rightarrow> pVarInfo list \<Rightarrow> int list \<Rightarrow> VariableList \<Rightarrow> bool" where
  "order_inv g F store ws K ul =
     (same_graph g store \<and> distinct (K @ ws) \<and> set K \<union> set ws = F \<and>
      (\<forall>k \<in> F. cnt store k = int (card (dep_of g k \<inter> F - set K))) \<and>
      topo g F K \<and> ul = map (node_v g) K)"

definition graph_ok :: "DepMap \<Rightarrow> int set \<Rightarrow> bool" where
  "graph_ok g F =
     (F \<subseteq> fst ` set g \<and>
      (\<forall>x \<in> F. \<forall>y \<in> F. (y \<in> mod_of g x) = (x \<in> dep_of g y)) \<and>
      (\<forall>k n. map_of g k = Some n \<longrightarrow> distinct (dependsOn n) \<and> distinct (modifies n)))"

section \<open>Example inputs\<close>

text \<open>In the examples a newly constructed node has the counter 0.\<close>

definition no_counter :: "int \<Rightarrow> int" where
  "no_counter k = 0"

text \<open>
  The scenario of the spec: \<^verbatim>\<open>A\<close> (identifier 1) reads nothing, \<^verbatim>\<open>B\<close> (2) reads
  \<^verbatim>\<open>A\<close>, \<^verbatim>\<open>C\<close> (3) reads \<^verbatim>\<open>B\<close>, and \<^verbatim>\<open>D\<close> (4) is unrelated. The variables
  live at the addresses 0 to 3; \<^verbatim>\<open>C\<close> and \<^verbatim>\<open>D\<close> are in a child scope.
  \<^verbatim>\<open>chain_dm\<close> is the map the constructor builds.
\<close>

definition chain_heap :: heap where
  "chain_heap = (\<lambda>a.
     if a = 0 then \<lparr>getId = 1, isConstant = False, getExpression = []\<rparr>
     else if a = 1 then \<lparr>getId = 2, isConstant = False, getExpression = [1]\<rparr>
     else if a = 2 then \<lparr>getId = 3, isConstant = False, getExpression = [2]\<rparr>
     else \<lparr>getId = 4, isConstant = False, getExpression = []\<rparr>)"

definition chain_tree :: BlockVariables where
  "chain_tree = BlockVariables [(''A'', 0), (''B'', 1)] [BlockVariables [(''C'', 2), (''D'', 3)] []]"

definition chain_map :: DepMap where
  "chain_map =
     [(1, \<lparr>vi_v = Some 0, dependsOn = [], modifies = [2], counter = 0\<rparr>),
      (2, \<lparr>vi_v = Some 1, dependsOn = [1], modifies = [3], counter = 0\<rparr>),
      (3, \<lparr>vi_v = Some 2, dependsOn = [2], modifies = [], counter = 0\<rparr>),
      (4, \<lparr>vi_v = Some 3, dependsOn = [], modifies = [], counter = 0\<rparr>)]"

definition chain_dm :: DependencyMap where
  "chain_dm = \<lparr>blockVars = chain_tree, dependencies = chain_map\<rparr>"

text \<open>
  A scope tree in which two variables that are not constant share the identifier 1.
\<close>

definition dup_heap :: heap where
  "dup_heap = (\<lambda>a. \<lparr>getId = 1, isConstant = False, getExpression = []\<rparr>)"

definition dup_tree :: BlockVariables where
  "dup_tree = BlockVariables [(''A'', 0)] [BlockVariables [(''B'', 1)] []]"

text \<open>
  The cycle of the spec: \<^verbatim>\<open>A\<close> (1) reads
  \<^verbatim>\<open>B\<close> (2) and \<^verbatim>\<open>B\<close> reads
  \<^verbatim>\<open>A\<close>.
\<close>

definition cycle_heap :: heap where
  "cycle_heap = (\<lambda>a.
     if a = 0 then \<lparr>getId = 1, isConstant = False, getExpression = [2]\<rparr>
     else \<lparr>getId = 2, isConstant = False, getExpression = [1]\<rparr>)"

definition cycle_tree :: BlockVariables where
  "cycle_tree = BlockVariables [(''A'', 0), (''B'', 1)] []"

definition cycle_dm :: DependencyMap where
  "cycle_dm = \<lparr>blockVars = cycle_tree, dependencies =
     [(1, \<lparr>vi_v = Some 0, dependsOn = [2], modifies = [2], counter = 0\<rparr>),
      (2, \<lparr>vi_v = Some 1, dependsOn = [1], modifies = [1], counter = 0\<rparr>)]\<rparr>"

text \<open>
  A constant \<^verbatim>\<open>A\<close> (1) that no variable reads, beside a variable \<^verbatim>\<open>B\<close> (2):
  the constructed map \<^verbatim>\<open>lone_dm\<close> has the node of \<^verbatim>\<open>B\<close> only. \<^verbatim>\<open>lone_dm'\<close> is
  the map after an update list was asked for the dependent variable \<^verbatim>\<open>A\<close>.
\<close>

definition lone_heap :: heap where
  "lone_heap = (\<lambda>a.
     if a = 0 then \<lparr>getId = 1, isConstant = True, getExpression = []\<rparr>
     else \<lparr>getId = 2, isConstant = False, getExpression = []\<rparr>)"

definition lone_tree :: BlockVariables where
  "lone_tree = BlockVariables [(''A'', 0), (''B'', 1)] []"

definition lone_dm :: DependencyMap where
  "lone_dm = \<lparr>blockVars = lone_tree, dependencies =
     [(2, \<lparr>vi_v = Some 1, dependsOn = [], modifies = [], counter = 0\<rparr>)]\<rparr>"

definition lone_dm' :: DependencyMap where
  "lone_dm' = \<lparr>blockVars = lone_tree, dependencies =
     [(1, \<lparr>vi_v = None, dependsOn = [], modifies = [], counter = 0\<rparr>),
      (2, \<lparr>vi_v = Some 1, dependsOn = [], modifies = [], counter = 0\<rparr>)]\<rparr>"






section \<open>Proofs\<close>

subsection \<open>resetCounters\<close>

lemma resetCounters_fold: "fold (\<lambda>entry dm'. dm') es dm = dm"
  by (induction es) simp_all

lemma resetCounters_noop: "resetCounters dm = dm"
  by (simp add: resetCounters_def Let_def resetCounters_fold)

subsection \<open>Construction\<close>

lemma keys_dom: "fst ` set m = dom (map_of m)"
  by (simp add: dom_map_of_conv_image_fst)

lemma map_of_at_update:
  "map_of (at_update counter0 i f d) =
     (map_of d)(i \<mapsto> f (case map_of d i of None \<Rightarrow> VarInfo_default (counter0 i) | Some n \<Rightarrow> n))"
  by (simp add: at_update_def map_of_map_assign)

lemma sorted_at_update:
  "sorted_wrt (<) (map fst d) \<Longrightarrow> sorted_wrt (<) (map fst (at_update counter0 i f d))"
  by (simp add: at_update_def sorted_map_assign)

lemma constructMapVariables_append:
  "constructMapVariables H counter0 (xs @ ys) d =
     (case constructMapVariables H counter0 xs d of
        Inl e \<Rightarrow> Inl e
      | Inr d' \<Rightarrow> constructMapVariables H counter0 ys d')"
  by (induction xs arbitrary: d) (simp_all add: Let_def)

lemma constructMapRecursive_flatten:
  "constructMapRecursive H counter0 t d = constructMapVariables H counter0 (flatten t) d"
  "constructMapChildren H counter0 ts d = constructMapVariables H counter0 (concat (map flatten ts)) d"
proof (induction H counter0 t d and H counter0 ts d
       rule: constructMapRecursive_constructMapChildren.induct)
  case (1 H counter0 vs chs deps)
  then show ?case
    by (simp add: constructMapVariables_append split: sum.splits)
next
  case (2 H counter0 deps)
  then show ?case by simp
next
  case (3 H counter0 ch chs deps)
  then show ?case
    by (simp add: constructMapVariables_append split: sum.splits)
qed

lemma constructMapVariables_duplicate:
  "\<not> (distinct (nodeIds H vs) \<and> set (nodeIds H vs) \<inter> fst ` set d = {}) \<Longrightarrow>
   constructMapVariables H counter0 vs d = Inl SchnekException"
proof (induction vs arbitrary: d)
  case Nil
  then show ?case by (simp add: nodeIds_def)
next
  case (Cons it vs)
  show ?case
  proof (cases "isConstant (H (snd it))")
    case True
    with Cons.prems have "\<not> (distinct (nodeIds H vs) \<and> set (nodeIds H vs) \<inter> fst ` set d = {})"
      by (simp add: nodeIds_def)
    from Cons.IH[OF this] True show ?thesis by simp
  next
    case False
    let ?i = "getId (H (snd it))"
    show ?thesis
    proof (cases "?i \<in> fst ` set d")
      case True
      then show ?thesis using False by (simp add: map_count_pos Let_def)
    next
      case notin: False
      let ?d = "map_assign ?i (VarInfo_init (snd it) (DependenciesGetter (getExpression (H (snd it)))) [] (counter0 ?i)) d"
      have "\<not> (distinct (nodeIds H vs) \<and> set (nodeIds H vs) \<inter> fst ` set ?d = {})"
        using Cons.prems False notin by (auto simp: nodeIds_def keys_map_assign)
      from Cons.IH[OF this] show ?thesis using False notin by (simp add: map_count_pos Let_def)
    qed
  qed
qed


lemma sorted_DependenciesGetter: "sorted_wrt (<) (DependenciesGetter e)"
proof -
  have "sorted_wrt (<) s \<Longrightarrow> sorted_wrt (<) (fold set_insert e s)" for s :: "int list"
    by (induction e arbitrary: s) (simp_all add: sorted_set_insert)
  then show ?thesis by (simp add: DependenciesGetter_def)
qed

lemma constructMapVariables_fresh:
  "fresh_nodes H d \<Longrightarrow> constructMapVariables H counter0 vs d = Inr d' \<Longrightarrow> fresh_nodes H d'"
proof (induction vs arbitrary: d)
  case Nil
  then show ?case by simp
next
  case (Cons it vs)
  show ?case
  proof (cases "isConstant (H (snd it))")
    case True
    with Cons show ?thesis by simp
  next
    case False
    let ?i = "getId (H (snd it))"
    let ?d = "map_assign ?i (VarInfo_init (snd it) (DependenciesGetter (getExpression (H (snd it)))) [] (counter0 ?i)) d"
    from Cons.prems(2) False have r: "constructMapVariables H counter0 vs ?d = Inr d'"
      by (simp add: Let_def split: if_splits)
    have "fresh_nodes H ?d"
      using Cons.prems(1)
      by (auto simp: fresh_nodes_def sorted_map_assign map_of_map_assign VarInfo_init_def
            sorted_DependenciesGetter split: if_splits)
    from Cons.IH[OF this r] show ?thesis .
  qed
qed

lemma dep_of_keys: "x \<in> dep_of d y \<Longrightarrow> y \<in> fst ` set d"
  by (auto simp: dep_of_def keys_dom split: option.splits)

lemma mod_of_keys: "x \<in> mod_of d y \<Longrightarrow> y \<in> fst ` set d"
  by (auto simp: mod_of_def keys_dom split: option.splits)

lemma nextEntry_None:
  "nextEntry cur d = None \<Longrightarrow> y \<in> fst ` set d \<Longrightarrow> visited cur y"
  by (fastforce simp: nextEntry_def find_None_iff visited_def not_less split: option.splits)

lemma nextEntry_sorted:
  "nextEntry cur d = Some e \<Longrightarrow> sorted_wrt (<) (map fst d) \<Longrightarrow>
   map_of d (fst e) = Some (snd e) \<and> \<not> visited cur (fst e) \<and>
   (\<forall>y \<in> fst ` set d. y < fst e \<longrightarrow> visited cur y)"
proof (induction d)
  case Nil
  then show ?case by (simp add: nextEntry_def)
next
  case (Cons e0 d)
  show ?case
  proof (cases "case cur of None \<Rightarrow> True | Some c \<Rightarrow> c < fst e0")
    case True
    then have "e = e0" using Cons.prems(1) by (simp add: nextEntry_def)
    then show ?thesis using True Cons.prems(2)
      by (cases e0) (auto simp: visited_def split: option.splits)
  next
    case False
    then have f: "nextEntry cur d = Some e" using Cons.prems(1) by (simp add: nextEntry_def)
    from Cons.prems(2) have s: "sorted_wrt (<) (map fst d)" and lt: "\<forall>k \<in> fst ` set d. fst e0 < k"
      by auto
    note IH = Cons.IH[OF f s]
    have "e \<in> set d" using f by (auto simp: nextEntry_def find_Some_iff)
    then have "fst e0 < fst e" using lt by auto
    then show ?thesis using IH False
      by (cases e0) (auto simp: visited_def split: option.splits)
  qed
qed

lemma dep_of_at_update:
  "(\<And>n. dependsOn (f n) = dependsOn n) \<Longrightarrow> dep_of (at_update counter0 i f d) x = dep_of d x"
  by (auto simp: dep_of_def map_of_at_update VarInfo_default_def split: option.splits)

lemma mod_of_at_update_insert:
  "mod_of (at_update counter0 i (\<lambda>n. n\<lparr>modifies := set_insert k (modifies n)\<rparr>) d) x =
     (if x = i then insert k (mod_of d x) else mod_of d x)"
  by (auto simp: mod_of_def map_of_at_update VarInfo_default_def set_set_insert split: option.splits)

lemma nodes_ok_at_update_insert:
  assumes "\<forall>j n. map_of d j = Some n \<longrightarrow> node_ok H j n"
  shows "\<forall>j n. map_of (at_update counter0 i (\<lambda>n. n\<lparr>modifies := set_insert k (modifies n)\<rparr>) d) j = Some n
            \<longrightarrow> node_ok H j n"
  using assms
  by (auto simp: map_of_at_update node_ok_def VarInfo_default_def sorted_set_insert
           split: option.splits if_splits)

lemma insertModifies_facts:
  assumes "\<forall>j n. map_of d j = Some n \<longrightarrow> node_ok H j n" "sorted_wrt (<) (map fst d)"
  shows "(\<forall>x. dep_of (insertModifies counter0 entry d) x = dep_of d x) \<and>
         (\<forall>x. mod_of (insertModifies counter0 entry d) x =
                (if x \<in> set (dependsOn (snd entry)) then insert (fst entry) (mod_of d x) else mod_of d x)) \<and>
         (\<forall>j n. map_of (insertModifies counter0 entry d) j = Some n \<longrightarrow> node_ok H j n) \<and>
         sorted_wrt (<) (map fst (insertModifies counter0 entry d))"
proof -
  define k where "k = fst entry"
  define g where "g = (\<lambda>i. at_update counter0 i (\<lambda>n. n\<lparr>modifies := set_insert k (modifies n)\<rparr>))"
  have "(\<forall>j n. map_of d j = Some n \<longrightarrow> node_ok H j n) \<Longrightarrow> sorted_wrt (<) (map fst d) \<Longrightarrow>
        (\<forall>x. dep_of (fold g ids d) x = dep_of d x) \<and>
        (\<forall>x. mod_of (fold g ids d) x = (if x \<in> set ids then insert k (mod_of d x) else mod_of d x)) \<and>
        (\<forall>j n. map_of (fold g ids d) j = Some n \<longrightarrow> node_ok H j n) \<and>
        sorted_wrt (<) (map fst (fold g ids d))" for ids
  proof (induction ids arbitrary: d)
    case Nil
    then show ?case by simp
  next
    case (Cons i ids)
    have ok: "\<forall>j n. map_of (g i d) j = Some n \<longrightarrow> node_ok H j n"
      unfolding g_def using Cons.prems(1) by (rule nodes_ok_at_update_insert)
    have so: "sorted_wrt (<) (map fst (g i d))"
      unfolding g_def using Cons.prems(2) by (rule sorted_at_update)
    note IH = Cons.IH[OF ok so]
    have d: "dep_of (g i d) x = dep_of d x" for x
      unfolding g_def by (rule dep_of_at_update) simp
    have m: "mod_of (g i d) x = (if x = i then insert k (mod_of d x) else mod_of d x)" for x
      unfolding g_def by (rule mod_of_at_update_insert)
    show ?case using IH by (auto simp: d m)
  qed
  from this[OF assms, of "dependsOn (snd entry)"] show ?thesis
    by (simp add: insertModifies_def g_def k_def)
qed

lemma inversePass_wf:
  "pass_inv H cur d \<Longrightarrow> wf_deps H (inversePass counter0 cur d)"
proof (induction counter0 cur d rule: inversePass.induct)
  case (1 counter0 cur d)
  show ?case
  proof (cases "nextEntry cur d")
    case None
    have "x \<in> dep_of d y \<Longrightarrow> visited cur y" for x y
      using nextEntry_None[OF None] dep_of_keys by blast
    then have "wf_deps H d" using "1.prems" by (auto simp: pass_inv_def wf_deps_def)
    then show ?thesis using None by simp
  next
    case (Some entry)
    from "1.prems" have ok: "\<forall>j n. map_of d j = Some n \<longrightarrow> node_ok H j n"
      and so: "sorted_wrt (<) (map fst d)"
      and inv: "\<And>x y. (y \<in> mod_of d x) = (x \<in> dep_of d y \<and> visited cur y)"
      by (auto simp: pass_inv_def)
    note F = insertModifies_facts[OF ok so, of counter0 entry]
    note N = nextEntry_sorted[OF Some so]
    have de: "dep_of d (fst entry) = set (dependsOn (snd entry))"
      using N by (simp add: dep_of_def)
    have vis: "x \<in> dep_of d y \<Longrightarrow> visited (Some (fst entry)) y = (visited cur y \<or> y = fst entry)" for x y
    proof -
      assume "x \<in> dep_of d y"
      then have y: "y \<in> fst ` set d" by (rule dep_of_keys)
      show ?thesis
      proof (cases "y < fst entry")
        case True
        then show ?thesis using N y by (auto simp: visited_def)
      next
        case False
        then show ?thesis using N by (cases cur) (auto simp: visited_def)
      qed
    qed
    have "pass_inv H (Some (fst entry)) (insertModifies counter0 entry d)"
      unfolding pass_inv_def
    proof (intro conjI allI)
      show "sorted_wrt (<) (map fst (insertModifies counter0 entry d))" using F by blast
    next
      fix x y
      show "(y \<in> mod_of (insertModifies counter0 entry d) x) =
            (x \<in> dep_of (insertModifies counter0 entry d) y \<and> visited (Some (fst entry)) y)"
        using F inv[of y x] vis[of x y] de by auto
    next
      fix k n
      show "map_of (insertModifies counter0 entry d) k = Some n \<longrightarrow> node_ok H k n"
        using F by blast
    qed
    from "1.IH"[OF Some this] show ?thesis using Some by simp
  qed
qed

lemma fresh_pass_inv: "fresh_nodes H d \<Longrightarrow> pass_inv H None d"
  by (auto simp: fresh_nodes_def pass_inv_def mod_of_def visited_def node_ok_def split: option.splits)

lemma DependencyMap_new_wf:
  "DependencyMap_new H counter0 vars = Inr dm \<Longrightarrow> wf_deps H (dependencies dm) \<and> blockVars dm = vars"
proof -
  assume a: "DependencyMap_new H counter0 vars = Inr dm"
  then obtain d0 where d0: "constructMapVariables H counter0 (flatten vars) [] = Inr d0"
    and dm: "dm = \<lparr>blockVars = vars, dependencies = inversePass counter0 None d0\<rparr>"
    by (auto simp: DependencyMap_new_def constructMap_def constructMapRecursive_flatten
             split: sum.splits)
  have "fresh_nodes H []" by (simp add: fresh_nodes_def)
  from constructMapVariables_fresh[OF this d0] have "fresh_nodes H d0" .
  then have "wf_deps H (inversePass counter0 None d0)"
    by (intro inversePass_wf fresh_pass_inv)
  then show ?thesis by (simp add: dm)
qed

subsection \<open>The predecessors\<close>

lemma ref_ok_Nil: "ref_ok []"
  by (simp add: ref_ok_def)

lemma ref_ok_assign: "ref_ok m \<Longrightarrow> ref_ok (map_assign i i m)"
  by (auto simp: ref_ok_def sorted_map_assign map_of_map_assign split: if_splits)

lemma map_of_subscript:
  "map_of (subscript counter0 d i) k =
     (if k = i \<and> map_of d i = None then Some (VarInfo_default (counter0 i)) else map_of d k)"
  by (auto simp: subscript_def map_of_at_update split: option.splits)

lemma fold_predInit:
  "fold (predInit H counter0) vs (dcur, ws, preds) = (d', ws', preds') \<Longrightarrow>
   fst ` set preds' = fst ` set preds \<union> getId ` H ` set vs \<and>
   set ws' = set ws \<union> getId ` H ` set vs \<and>
   (ref_ok preds \<longrightarrow> ref_ok preds') \<and>
   (\<forall>k. map_of d' k = with_defaults counter0 dcur (getId ` H ` set vs) k)"
proof (induction vs arbitrary: dcur ws preds)
  case Nil
  then show ?case by (simp add: with_defaults_def)
next
  case (Cons v vs)
  let ?i = "getId (H v)"
  have "predInit H counter0 v (dcur, ws, preds) =
        (subscript counter0 dcur ?i, ws @ [?i], map_assign ?i ?i preds)"
    by (simp add: predInit_def Let_def)
  with Cons.prems have "fold (predInit H counter0) vs
        (subscript counter0 dcur ?i, ws @ [?i], map_assign ?i ?i preds) = (d', ws', preds')"
    by simp
  from Cons.IH[OF this] show ?case
    by (auto simp: keys_map_assign ref_ok_assign with_defaults_def map_of_subscript)
qed

lemma fold_predVisit_more:
  "fold (predVisit counter0) ids (dcur, ws, preds) = (d', ws', preds') \<Longrightarrow>
   (ref_ok preds \<longrightarrow> ref_ok preds') \<and>
   (\<forall>k. map_of d' k = with_defaults counter0 dcur (set ids - fst ` set preds) k)"
proof (induction ids arbitrary: dcur ws preds)
  case Nil
  then show ?case by (simp add: with_defaults_def)
next
  case (Cons i ids)
  show ?case
  proof (cases "i \<in> fst ` set preds")
    case True
    then have "predVisit counter0 i (dcur, ws, preds) = (dcur, ws, preds)"
      by (simp add: predVisit_def map_count_pos)
    with Cons.prems have "fold (predVisit counter0) ids (dcur, ws, preds) = (d', ws', preds')"
      by simp
    from Cons.IH[OF this] True show ?thesis by (auto simp: with_defaults_def)
  next
    case False
    then have "predVisit counter0 i (dcur, ws, preds) =
        (subscript counter0 dcur i, ws @ [i], map_assign i i preds)"
      by (simp add: predVisit_def map_count_pos)
    with Cons.prems have "fold (predVisit counter0) ids
        (subscript counter0 dcur i, ws @ [i], map_assign i i preds) = (d', ws', preds')"
      by simp
    from Cons.IH[OF this] False show ?thesis
      by (auto simp: keys_map_assign ref_ok_assign with_defaults_def map_of_subscript)
  qed
qed

lemma dep_of_with_defaults:
  "\<forall>k. map_of d' k = with_defaults counter0 d A k \<Longrightarrow> dep_of d' = dep_of d"
  by (auto simp: dep_of_def with_defaults_def VarInfo_default_def fun_eq_iff split: option.splits)

lemma mod_of_with_defaults:
  "\<forall>k. map_of d' k = with_defaults counter0 d A k \<Longrightarrow> mod_of d' = mod_of d"
  by (auto simp: mod_of_def with_defaults_def VarInfo_default_def fun_eq_iff split: option.splits)

lemma keys_with_defaults:
  "\<forall>k. map_of d' k = with_defaults counter0 d A k \<Longrightarrow> fst ` set d' = fst ` set d \<union> A"
  by (auto simp: keys_dom with_defaults_def dom_def split: if_splits)

lemma required_closed:
  assumes "D \<subseteq> S" "\<forall>a \<in> S. dep_of d a \<subseteq> S"
  shows "required d D \<subseteq> S"
proof
  fix k assume "k \<in> required d D"
  then show "k \<in> S" using assms by induction auto
qed

lemma predLoop_correct:
  "pred_inv counter0 d D dcur ws preds \<Longrightarrow>
   \<exists>d2 preds2. predLoop counter0 dcur ws preds = Inr (d2, preds2) \<and>
     fst ` set preds2 = required d D \<and> ref_ok preds2 \<and>
     (\<forall>k. map_of d2 k = with_defaults counter0 d (required d D) k)"
proof (induction counter0 dcur ws preds rule: predLoop.induct)
  case (1 counter0 dcur preds)
  then have "required d D \<subseteq> fst ` set preds"
    by (intro required_closed) (auto simp: pred_inv_def)
  then have "fst ` set preds = required d D" using 1 by (auto simp: pred_inv_def)
  then show ?case using 1 by (auto simp: pred_inv_def)
next
  case (2 counter0 dcur vi ws preds)
  note inv = "2.prems"
  from inv have wd: "\<forall>k. map_of dcur k = with_defaults counter0 d (fst ` set preds) k"
    by (simp add: pred_inv_def)
  from inv have vi: "vi \<in> fst ` set preds" by (simp add: pred_inv_def)
  then have "vi \<in> fst ` set dcur" using keys_with_defaults[OF wd] by simp
  then obtain n where n: "map_of dcur vi = Some n" by (auto simp: keys_dom)
  have "dep_of dcur vi = dep_of d vi" using dep_of_with_defaults[OF wd] by simp
  then have ids: "set (dependsOn n) = dep_of d vi" using n by (simp add: dep_of_def)
  obtain d' ws' preds' where
    f: "fold (predVisit counter0) (dependsOn n) (dcur, ws, preds) = (d', ws', preds')"
    by (cases "fold (predVisit counter0) (dependsOn n) (dcur, ws, preds)") auto
  note F = fold_predVisit[OF f] and G = fold_predVisit_more[OF f]
  have kp: "fst ` set preds' = fst ` set preds \<union> dep_of d vi" using F ids by simp
  have kw: "set ws' = set ws \<union> (dep_of d vi - fst ` set preds)" using F ids by simp
  have "pred_inv counter0 d D d' ws' preds'"
    unfolding pred_inv_def
  proof (intro conjI)
    show "set ws' \<subseteq> fst ` set preds'" using inv kp kw by (auto simp: pred_inv_def)
    show "fst ` set preds' \<subseteq> required d D"
      using inv kp vi by (auto simp: pred_inv_def intro: required.dependsOn)
    show "D \<subseteq> fst ` set preds'" using inv kp by (auto simp: pred_inv_def)
    show "\<forall>a \<in> fst ` set preds' - set ws'. dep_of d a \<subseteq> fst ` set preds'"
    proof
      fix a assume a: "a \<in> fst ` set preds' - set ws'"
      then have ap: "a \<in> fst ` set preds" and aw: "a \<notin> set ws" using kp kw by auto
      show "dep_of d a \<subseteq> fst ` set preds'"
      proof (cases "a = vi")
        case True
        then show ?thesis using kp by auto
      next
        case False
        then have "a \<in> fst ` set preds - set (vi # ws)" using ap aw by simp
        then have "dep_of d a \<subseteq> fst ` set preds" using inv by (auto simp: pred_inv_def)
        then show ?thesis using kp by auto
      qed
    qed
    show "ref_ok preds'" using inv G by (simp add: pred_inv_def)
    show "\<forall>k. map_of d' k = with_defaults counter0 d (fst ` set preds') k"
      using G wd kp ids by (auto simp: with_defaults_def)
  qed
  from "2.IH"[OF n f[symmetric] refl this] show ?case using n f by simp
qed

lemma makeUpdatePredecessors_correct:
  "\<exists>d2 preds. makeUpdatePredecessors H counter0 dv d = Inr (d2, preds) \<and>
     fst ` set preds = required d (getId ` H ` set dv) \<and> ref_ok preds \<and>
     (\<forall>k. map_of d2 k = with_defaults counter0 d (required d (getId ` H ` set dv)) k)"
proof -
  let ?D = "getId ` H ` set dv"
  obtain d1 ws1 preds1 where
    f: "fold (predInit H counter0) dv (d, [], []) = (d1, ws1, preds1)"
    by (cases "fold (predInit H counter0) dv (d, [], [])") auto
  note F = fold_predInit[OF f]
  have "pred_inv counter0 d ?D d1 ws1 preds1"
    using F by (auto simp: pred_inv_def ref_ok_Nil intro: required.dependent)
  from predLoop_correct[OF this] show ?thesis
    by (simp add: makeUpdatePredecessors_def f)
qed

subsection \<open>The followers\<close>

lemma relevant_required: "k \<in> relevant d I D \<Longrightarrow> k \<in> required d D"
  by (induction rule: relevant.induct) auto

lemma relevant_closed:
  assumes "I \<inter> required d D \<subseteq> S" "\<forall>a \<in> S. mod_of d a \<inter> required d D \<subseteq> S"
  shows "relevant d I D \<subseteq> S"
proof
  fix k assume "k \<in> relevant d I D"
  then show "k \<in> S" using assms by induction auto
qed

lemma ref_ok_lookup: "ref_ok m \<Longrightarrow> map_of m i = (if i \<in> fst ` set m then Some i else None)"
  by (cases "map_of m i") (auto simp: ref_ok_def keys_dom)

lemma fold_follInit:
  "ref_ok preds \<Longrightarrow> fold (follInit H preds) vs (ws, foll) = (ws', foll') \<Longrightarrow>
   fst ` set foll' = fst ` set foll \<union> (getId ` H ` set vs \<inter> fst ` set preds) \<and>
   set ws' = set ws \<union> (getId ` H ` set vs \<inter> fst ` set preds) \<and>
   (ref_ok foll \<longrightarrow> ref_ok foll')"
proof (induction vs arbitrary: ws foll)
  case Nil
  then show ?case by simp
next
  case (Cons v vs)
  let ?i = "getId (H v)"
  show ?case
  proof (cases "?i \<in> fst ` set preds")
    case True
    then have "follInit H preds v (ws, foll) = (ws @ [?i], map_assign ?i ?i foll)"
      using Cons.prems(1) by (simp add: follInit_def Let_def ref_ok_lookup)
    with Cons.prems have "fold (follInit H preds) vs (ws @ [?i], map_assign ?i ?i foll) = (ws', foll')"
      by simp
    from Cons.IH[OF Cons.prems(1) this] True show ?thesis
      by (auto simp: keys_map_assign ref_ok_assign)
  next
    case False
    then have "follInit H preds v (ws, foll) = (ws, foll)"
      using Cons.prems(1) by (simp add: follInit_def Let_def ref_ok_lookup)
    with Cons.prems have "fold (follInit H preds) vs (ws, foll) = (ws', foll')"
      by simp
    from Cons.IH[OF Cons.prems(1) this] False show ?thesis by auto
  qed
qed

lemma fold_follVisit_more:
  "ref_ok preds \<Longrightarrow> fold (follVisit preds) ids (ws, foll) = (ws', foll') \<Longrightarrow>
   set ws' = set ws \<union> ((set ids \<inter> fst ` set preds) - fst ` set foll) \<and>
   (ref_ok foll \<longrightarrow> ref_ok foll')"
proof (induction ids arbitrary: ws foll)
  case Nil
  then show ?case by simp
next
  case (Cons i ids)
  show ?case
  proof (cases "i \<in> fst ` set foll \<or> i \<notin> fst ` set preds")
    case True
    then have "follVisit preds i (ws, foll) = (ws, foll)"
      using Cons.prems(1) by (auto simp: follVisit_def map_count_pos ref_ok_lookup)
    with Cons.prems have "fold (follVisit preds) ids (ws, foll) = (ws', foll')"
      by simp
    from Cons.IH[OF Cons.prems(1) this] True show ?thesis by auto
  next
    case False
    then have "follVisit preds i (ws, foll) = (ws @ [i], map_assign i i foll)"
      using Cons.prems(1) by (simp add: follVisit_def map_count_pos ref_ok_lookup)
    with Cons.prems have "fold (follVisit preds) ids (ws @ [i], map_assign i i foll) = (ws', foll')"
      by simp
    from Cons.IH[OF Cons.prems(1) this] False show ?thesis
      by (auto simp: keys_map_assign ref_ok_assign)
  qed
qed

lemma follLoop_correct:
  "ref_ok preds \<Longrightarrow> fst ` set preds = required d D \<Longrightarrow>
   required d D \<subseteq> fst ` set d2 \<Longrightarrow> mod_of d2 = mod_of d \<Longrightarrow>
   foll_inv d I D ws foll \<Longrightarrow>
   \<exists>foll2. follLoop d2 preds ws foll = Inr foll2 \<and>
     fst ` set foll2 = relevant d I D \<and> ref_ok foll2"
proof (induction d2 preds ws foll rule: follLoop.induct)
  case (1 d2 preds foll)
  then have "relevant d I D \<subseteq> fst ` set foll"
    by (intro relevant_closed) (auto simp: foll_inv_def)
  then have "fst ` set foll = relevant d I D" using 1 by (auto simp: foll_inv_def)
  then show ?case using 1 by (auto simp: foll_inv_def)
next
  case (2 d2 preds vi ws foll)
  note inv = "2.prems"(5)
  note pr = "2.prems"(1,2)
  note st = "2.prems"(3,4)
  from inv have vi: "vi \<in> fst ` set foll" and vr: "vi \<in> relevant d I D"
    by (auto simp: foll_inv_def)
  then have "vi \<in> fst ` set d2" using st relevant_required by blast
  then obtain n where n: "map_of d2 vi = Some n" by (auto simp: keys_dom)
  have "mod_of d2 vi = mod_of d vi" using st(2) by simp
  then have ids: "set (modifies n) = mod_of d vi" using n by (simp add: mod_of_def)
  obtain ws' foll' where
    f: "fold (follVisit preds) (modifies n) (ws, foll) = (ws', foll')"
    by (cases "fold (follVisit preds) (modifies n) (ws, foll)") auto
  note F = fold_follVisit[OF f] and G = fold_follVisit_more[OF pr(1) f]
  have kp: "fst ` set foll' = fst ` set foll \<union> (mod_of d vi \<inter> required d D)"
    using F ids pr(2) by simp
  have kw: "set ws' = set ws \<union> ((mod_of d vi \<inter> required d D) - fst ` set foll)"
    using G ids pr(2) by simp
  have "foll_inv d I D ws' foll'"
    unfolding foll_inv_def
  proof (intro conjI)
    show "set ws' \<subseteq> fst ` set foll'" using inv kp kw by (auto simp: foll_inv_def)
    show "fst ` set foll' \<subseteq> relevant d I D"
      using inv kp vr by (auto simp: foll_inv_def intro: relevant.modifies)
    show "I \<inter> required d D \<subseteq> fst ` set foll'" using inv kp by (auto simp: foll_inv_def)
    show "\<forall>a \<in> fst ` set foll' - set ws'. mod_of d a \<inter> required d D \<subseteq> fst ` set foll'"
    proof
      fix a assume a: "a \<in> fst ` set foll' - set ws'"
      then have ap: "a \<in> fst ` set foll" and aw: "a \<notin> set ws" using kp kw by auto
      show "mod_of d a \<inter> required d D \<subseteq> fst ` set foll'"
      proof (cases "a = vi")
        case True
        then show ?thesis using kp by auto
      next
        case False
        then have "a \<in> fst ` set foll - set (vi # ws)" using ap aw by simp
        then have "mod_of d a \<inter> required d D \<subseteq> fst ` set foll"
          using inv by (auto simp: foll_inv_def)
        then show ?thesis using kp by auto
      qed
    qed
    show "ref_ok foll'" using inv G by (simp add: foll_inv_def)
  qed
  from "2.IH"[OF n f[symmetric] pr st this] show ?case using n f by simp
qed

lemma makeUpdateFollowers_correct:
  assumes "ref_ok preds" "fst ` set preds = required d D"
    and "required d D \<subseteq> fst ` set d2" "mod_of d2 = mod_of d"
    and "I = getId ` H ` set iv"
  shows "\<exists>foll. makeUpdateFollowers H iv preds d2 = Inr foll \<and>
     fst ` set foll = relevant d I D \<and> ref_ok foll"
proof -
  obtain ws1 foll1 where
    f: "fold (follInit H preds) iv ([], []) = (ws1, foll1)"
    by (cases "fold (follInit H preds) iv ([], [])") auto
  note F = fold_follInit[OF assms(1) f]
  have "foll_inv d I D ws1 foll1"
    using F assms(2,5) by (auto simp: foll_inv_def ref_ok_Nil intro: relevant.independent)
  from follLoop_correct[OF assms(1-4) this] show ?thesis
    by (simp add: makeUpdateFollowers_def f)
qed

subsection \<open>The update order\<close>

lemma finite_dep_of: "finite (dep_of d k)"
  by (simp add: dep_of_def split: option.splits)

lemma same_graph_refl: "same_graph d d"
  by (simp add: same_graph_def option.rel_refl)

lemma same_graph_trans: "same_graph a b \<Longrightarrow> same_graph b c \<Longrightarrow> same_graph a c"
  unfolding same_graph_def
proof
  fix k
  assume a: "\<forall>k. rel_option (\<lambda>n n'. vi_v n' = vi_v n \<and> dependsOn n' = dependsOn n \<and> modifies n' = modifies n)
       (map_of a k) (map_of b k)"
    and b: "\<forall>k. rel_option (\<lambda>n n'. vi_v n' = vi_v n \<and> dependsOn n' = dependsOn n \<and> modifies n' = modifies n)
       (map_of b k) (map_of c k)"
  from a[rule_format, of k] b[rule_format, of k]
  show "rel_option (\<lambda>n n'. vi_v n' = vi_v n \<and> dependsOn n' = dependsOn n \<and> modifies n' = modifies n)
       (map_of a k) (map_of c k)"
    by (cases "map_of a k"; cases "map_of b k"; cases "map_of c k") auto
qed

lemma same_graph_lookup:
  "same_graph d d' \<Longrightarrow> map_of d' k = Some n' \<Longrightarrow>
   \<exists>n. map_of d k = Some n \<and> vi_v n' = vi_v n \<and> dependsOn n' = dependsOn n \<and> modifies n' = modifies n"
  unfolding same_graph_def
  by (erule_tac x = k in allE) (cases "map_of d k", auto)

lemma same_graph_keys: "same_graph d d' \<Longrightarrow> fst ` set d' = fst ` set d"
proof -
  assume a: "same_graph d d'"
  have "(map_of d' k = None) = (map_of d k = None)" for k
    using a[unfolded same_graph_def, rule_format, of k]
    by (cases "map_of d k"; cases "map_of d' k") auto
  then show ?thesis by (auto simp: keys_dom dom_def)
qed

lemma same_graph_dep_of: "same_graph d d' \<Longrightarrow> dep_of d' = dep_of d"
proof
  fix k assume a: "same_graph d d'"
  show "dep_of d' k = dep_of d k"
    using a[unfolded same_graph_def, rule_format, of k]
    by (cases "map_of d k"; cases "map_of d' k") (auto simp: dep_of_def)
qed

lemma same_graph_mod_of: "same_graph d d' \<Longrightarrow> mod_of d' = mod_of d"
proof
  fix k assume a: "same_graph d d'"
  show "mod_of d' k = mod_of d k"
    using a[unfolded same_graph_def, rule_format, of k]
    by (cases "map_of d k"; cases "map_of d' k") (auto simp: mod_of_def)
qed

lemma same_graph_node_v: "same_graph d d' \<Longrightarrow> node_v d' = node_v d"
proof
  fix k assume a: "same_graph d d'"
  show "node_v d' k = node_v d k"
    using a[unfolded same_graph_def, rule_format, of k]
    by (cases "map_of d k"; cases "map_of d' k") (auto simp: node_v_def)
qed

lemma same_graph_counter:
  "map_of d k = Some n \<Longrightarrow> same_graph d (map_assign k (n\<lparr>counter := c\<rparr>) d)"
  by (auto simp: same_graph_def map_of_map_assign option.rel_refl)

lemma cnt_assign:
  "cnt (map_assign k (n\<lparr>counter := c\<rparr>) d) j = (if j = k then c else cnt d j)"
  by (simp add: cnt_def map_of_map_assign)

lemma fold_count:
  "fold (\<lambda>i c. if P i then c + 1 else c) ids (c0 :: int) = c0 + int (length (filter P ids))"
  by (induction ids arbitrary: c0) simp_all

lemma countDeps_card:
  "distinct ids \<Longrightarrow> countDeps deps ids = int (card (set ids \<inter> fst ` set deps))"
proof -
  assume d: "distinct ids"
  have "{i. i \<in> fst ` set deps} \<inter> set ids = set ids \<inter> fst ` set deps" by auto
  then show ?thesis
    using distinct_length_filter[OF d, of "\<lambda>i. i \<in> fst ` set deps"]
    by (simp add: countDeps_def map_count_pos fold_count)
qed

lemma initCounters_correct:
  "snd ` set rest \<subseteq> fst ` set store \<Longrightarrow> (\<forall>e \<in> set rest. snd e = fst e) \<Longrightarrow>
   distinct (map fst rest) \<Longrightarrow>
   (\<forall>k n. map_of store k = Some n \<longrightarrow> distinct (dependsOn n)) \<Longrightarrow>
   \<exists>store'. initCounters deps rest store ws = Inr (store', ws @ map snd rest) \<and>
     same_graph store store' \<and>
     (\<forall>k. cnt store' k =
        (if k \<in> fst ` set rest then int (card (dep_of store k \<inter> fst ` set deps)) else cnt store k))"
proof (induction rest arbitrary: store ws)
  case Nil
  then show ?case by (simp add: same_graph_refl)
next
  case (Cons entry rest)
  let ?k = "fst entry"
  from Cons.prems have k: "snd entry = ?k" and kin: "?k \<in> fst ` set store" by auto
  then obtain n where n: "map_of store ?k = Some n" by (auto simp: keys_dom)
  let ?c = "countDeps deps (dependsOn n)"
  let ?s = "map_assign ?k (n\<lparr>counter := ?c\<rparr>) store"
  have sg: "same_graph store ?s" using n by (rule same_graph_counter)
  have c: "?c = int (card (dep_of store ?k \<inter> fst ` set deps))"
    using Cons.prems(4) n by (simp add: countDeps_card dep_of_def)
  have p1: "snd ` set rest \<subseteq> fst ` set ?s" using Cons.prems(1) by (auto simp: keys_map_assign)
  have p2: "\<forall>e \<in> set rest. snd e = fst e" using Cons.prems(2) by simp
  have p3: "distinct (map fst rest)" using Cons.prems(3) by simp
  have p4: "\<forall>k n. map_of ?s k = Some n \<longrightarrow> distinct (dependsOn n)"
    using Cons.prems(4) n by (auto simp: map_of_map_assign split: if_splits)
  from Cons.IH[OF p1 p2 p3 p4, of "ws @ [?k]"] obtain store' where
    r: "initCounters deps rest ?s (ws @ [?k]) = Inr (store', (ws @ [?k]) @ map snd rest)"
    and g: "same_graph ?s store'"
    and cn: "\<forall>j. cnt store' j =
        (if j \<in> fst ` set rest then int (card (dep_of ?s j \<inter> fst ` set deps)) else cnt ?s j)"
    by blast
  have notin: "?k \<notin> fst ` set rest" using Cons.prems(3) by auto
  have "initCounters deps (entry # rest) store ws = Inr (store', ws @ map snd (entry # rest))"
    using r n k by (simp add: Let_def)
  moreover have "same_graph store store'" using sg g by (rule same_graph_trans)
  moreover have "\<forall>j. cnt store' j =
        (if j \<in> fst ` set (entry # rest) then int (card (dep_of store j \<inter> fst ` set deps)) else cnt store j)"
  proof
    fix j
    have d: "dep_of ?s j = dep_of store j" using same_graph_dep_of[OF sg] by simp
    have cj: "cnt ?s j = (if j = ?k then ?c else cnt store j)" by (rule cnt_assign)
    have "j \<in> fst ` set (entry # rest) = (j = ?k \<or> j \<in> fst ` set rest)" by auto
    then show "cnt store' j =
        (if j \<in> fst ` set (entry # rest) then int (card (dep_of store j \<inter> fst ` set deps)) else cnt store j)"
      using cn[rule_format, of j] notin c d cj by (cases "j = ?k") simp_all
  qed
  ultimately show ?case by blast
qed

lemma findNextEval_cases:
  "set ws \<subseteq> fst ` set store \<Longrightarrow>
   (\<exists>p xs ys. findNextEval store ws = Inr (p, xs @ ys) \<and> ws = xs @ p # ys \<and> cnt store p = 0) \<or>
   (findNextEval store ws = Inl AssertNextEval \<and> (\<forall>p \<in> set ws. cnt store p \<noteq> 0))"
proof (induction ws)
  case Nil
  then show ?case by simp
next
  case (Cons w ws)
  then obtain n where n: "map_of store w = Some n" by (auto simp: keys_dom)
  show ?case
  proof (cases "counter n = 0")
    case True
    then have "findNextEval store (w # ws) = Inr (w, [] @ ws) \<and> w # ws = [] @ w # ws \<and> cnt store w = 0"
      using n by (simp add: cnt_def)
    then show ?thesis by blast
  next
    case False
    from Cons have "(\<exists>p xs ys. findNextEval store ws = Inr (p, xs @ ys) \<and> ws = xs @ p # ys \<and> cnt store p = 0) \<or>
      (findNextEval store ws = Inl AssertNextEval \<and> (\<forall>p \<in> set ws. cnt store p \<noteq> 0))" by simp
    then show ?thesis
    proof
      assume "\<exists>p xs ys. findNextEval store ws = Inr (p, xs @ ys) \<and> ws = xs @ p # ys \<and> cnt store p = 0"
      then obtain p xs ys where "findNextEval store ws = Inr (p, xs @ ys)" "ws = xs @ p # ys" "cnt store p = 0"
        by blast
      then have "findNextEval store (w # ws) = Inr (p, (w # xs) @ ys) \<and> w # ws = (w # xs) @ p # ys \<and> cnt store p = 0"
        using n False by simp
      then show ?thesis by blast
    next
      assume "findNextEval store ws = Inl AssertNextEval \<and> (\<forall>p \<in> set ws. cnt store p \<noteq> 0)"
      then show ?thesis using n False by (simp add: cnt_def)
    qed
  qed
qed

lemma decrementCounters_correct:
  "ref_ok deps \<Longrightarrow> fst ` set deps \<subseteq> fst ` set store \<Longrightarrow> distinct ids \<Longrightarrow>
   (\<forall>i \<in> set ids \<inter> fst ` set deps. cnt store i \<ge> 1) \<Longrightarrow>
   \<exists>store'. decrementCounters deps ids store = Inr store' \<and> same_graph store store' \<and>
     (\<forall>k. cnt store' k = (if k \<in> set ids \<inter> fst ` set deps then cnt store k - 1 else cnt store k))"
proof (induction ids arbitrary: store)
  case Nil
  then show ?case by (simp add: same_graph_refl)
next
  case (Cons i ids)
  show ?case
  proof (cases "i \<in> fst ` set deps")
    case False
    then have l: "map_of deps i = None" using Cons.prems(1) by (simp add: ref_ok_lookup)
    have "\<forall>j \<in> set ids \<inter> fst ` set deps. cnt store j \<ge> 1" using Cons.prems(4) by simp
    from Cons.IH[OF Cons.prems(1,2) _ this] Cons.prems(3) obtain store' where
      "decrementCounters deps ids store = Inr store'" "same_graph store store'"
      "\<forall>k. cnt store' k = (if k \<in> set ids \<inter> fst ` set deps then cnt store k - 1 else cnt store k)"
      by auto
    then show ?thesis using l False by auto
  next
    case True
    then have l: "map_of deps i = Some i" using Cons.prems(1) by (simp add: ref_ok_lookup)
    from True Cons.prems(2) obtain n where n: "map_of store i = Some n" by (auto simp: keys_dom)
    have c1: "counter n \<ge> 1" using Cons.prems(4) True n by (auto simp: cnt_def)
    let ?s = "map_assign i (n\<lparr>counter := counter n - 1\<rparr>) store"
    have sg: "same_graph store ?s" using n by (rule same_graph_counter)
    have p2: "fst ` set deps \<subseteq> fst ` set ?s" using Cons.prems(2) by (auto simp: keys_map_assign)
    have p3: "distinct ids" and ni: "i \<notin> set ids" using Cons.prems(3) by auto
    have p4: "\<forall>j \<in> set ids \<inter> fst ` set deps. cnt ?s j \<ge> 1"
      using Cons.prems(4) ni by (auto simp: cnt_assign)
    from Cons.IH[OF Cons.prems(1) p2 p3 p4] obtain store' where
      r: "decrementCounters deps ids ?s = Inr store'" and g: "same_graph ?s store'"
      and cn: "\<forall>k. cnt store' k = (if k \<in> set ids \<inter> fst ` set deps then cnt ?s k - 1 else cnt ?s k)"
      by blast
    have "decrementCounters deps (i # ids) store = Inr store'"
      using r l n c1 by (simp add: Let_def)
    moreover have "same_graph store store'" using sg g by (rule same_graph_trans)
    moreover have "\<forall>k. cnt store' k =
        (if k \<in> set (i # ids) \<inter> fst ` set deps then cnt store k - 1 else cnt store k)"
    proof
      fix k
      have ck: "cnt ?s k = (if k = i then counter n - 1 else cnt store k)" by (rule cnt_assign)
      have ci: "cnt store i = counter n" using n by (simp add: cnt_def)
      show "cnt store' k =
        (if k \<in> set (i # ids) \<inter> fst ` set deps then cnt store k - 1 else cnt store k)"
        using cn[rule_format, of k] ni True ck ci by (cases "k = i") simp_all
    qed
    ultimately show ?thesis by blast
  qed
qed

lemma card_remove_int:
  "finite A \<Longrightarrow> p \<in> A \<Longrightarrow> int (card (A - {p})) = int (card A) - 1"
proof -
  assume fin: "finite A" and p: "p \<in> A"
  then have "0 < card A" by (auto simp: card_gt_0_iff)
  moreover have "card (A - {p}) = card A - 1" using p by (simp add: card_Diff_singleton)
  ultimately show ?thesis by linarith
qed

lemma topo_snoc:
  "topo g F K \<Longrightarrow> dep_of g p \<inter> F \<subseteq> set K \<Longrightarrow> topo g F (K @ [p])"
  unfolding topo_def
proof (intro allI impI)
  fix j
  assume t: "\<forall>j<length K. dep_of g (K ! j) \<inter> F \<subseteq> set (take j K)"
    and p: "dep_of g p \<inter> F \<subseteq> set K" and j: "j < length (K @ [p])"
  show "dep_of g ((K @ [p]) ! j) \<inter> F \<subseteq> set (take j (K @ [p]))"
  proof (cases "j < length K")
    case True
    then show ?thesis using t by (simp add: nth_append)
  next
    case False
    then have "j = length K" using j by simp
    then show ?thesis using p by simp
  qed
qed

lemma orderLoop_correct:
  "ref_ok deps \<Longrightarrow> fst ` set deps = F \<Longrightarrow> graph_ok g F \<Longrightarrow> order_inv g F store ws K ul \<Longrightarrow>
   (\<exists>store' K'. orderLoop deps store ws ul = Inr (store', map (node_v g) K') \<and>
       same_graph g store' \<and> distinct K' \<and> set K' = F \<and> topo g F K') \<or>
   (orderLoop deps store ws ul = Inl AssertNextEval \<and>
       (\<exists>W. W \<noteq> {} \<and> W \<subseteq> F \<and> (\<forall>p \<in> W. \<exists>q \<in> W. q \<in> dep_of g p)))"
proof (induction deps store ws ul arbitrary: K rule: orderLoop.induct)
  case (1 deps store updateList)
  then have "orderLoop deps store [] updateList = Inr (store, map (node_v g) K) \<and>
       same_graph g store \<and> distinct K \<and> set K = F \<and> topo g F K"
    by (simp add: order_inv_def)
  then show ?case by blast
next
  case (2 deps store w ws ul)
  note ro = "2.prems"(1) and kF = "2.prems"(2) and gok = "2.prems"(3) and inv = "2.prems"(4)
  from inv have sg: "same_graph g store" and di: "distinct (K @ w # ws)"
    and un: "set K \<union> set (w # ws) = F"
    and cn: "\<forall>k \<in> F. cnt store k = int (card (dep_of g k \<inter> F - set K))"
    and tp: "topo g F K" and ul: "ul = map (node_v g) K"
    by (simp_all add: order_inv_def)
  have keys: "fst ` set store = fst ` set g" using sg by (rule same_graph_keys)
  have Fk: "F \<subseteq> fst ` set store" using gok keys by (simp add: graph_ok_def)
  have wsF: "set (w # ws) \<subseteq> F" using un by auto
  then have "set (w # ws) \<subseteq> fst ` set store" using Fk by blast
  from findNextEval_cases[OF this]
  show ?case
  proof
    assume "findNextEval store (w # ws) = Inl AssertNextEval \<and> (\<forall>p \<in> set (w # ws). cnt store p \<noteq> 0)"
    then have e: "findNextEval store (w # ws) = Inl AssertNextEval"
      and nz: "\<forall>p \<in> set (w # ws). cnt store p \<noteq> 0" by blast+
    have "\<forall>p \<in> set (w # ws). \<exists>q \<in> set (w # ws). q \<in> dep_of g p"
    proof
      fix p assume p: "p \<in> set (w # ws)"
      then have "p \<in> F" using wsF by blast
      then have "card (dep_of g p \<inter> F - set K) \<noteq> 0" using cn nz p by auto
      then have "dep_of g p \<inter> F - set K \<noteq> {}" by (metis card.empty)
      then obtain q where "q \<in> dep_of g p" "q \<in> F" "q \<notin> set K" by blast
      then show "\<exists>q \<in> set (w # ws). q \<in> dep_of g p" using un by blast
    qed
    moreover have "set (w # ws) \<noteq> {}" by simp
    moreover have "orderLoop deps store (w # ws) ul = Inl AssertNextEval" using e by simp
    ultimately show ?thesis using wsF by blast
  next
    assume "\<exists>p xs ys. findNextEval store (w # ws) = Inr (p, xs @ ys) \<and> w # ws = xs @ p # ys \<and> cnt store p = 0"
    then obtain p xs ys where f: "findNextEval store (w # ws) = Inr (p, xs @ ys)"
      and sp: "w # ws = xs @ p # ys" and c0: "cnt store p = 0" by blast
    have pw: "p \<in> set (w # ws)" using sp by simp
    then have pF: "p \<in> F" using wsF by blast
    have pK: "p \<notin> set K" using di pw by auto
    from pF Fk obtain n where n: "map_of store p = Some n" by (auto simp: keys_dom)
    from same_graph_lookup[OF sg n] obtain n0 where n0: "map_of g p = Some n0"
      and eqs: "vi_v n = vi_v n0" "dependsOn n = dependsOn n0" "modifies n = modifies n0" by blast
    have dm: "distinct (modifies n)" using gok n0 eqs by (auto simp: graph_ok_def)
    have sm: "set (modifies n) = mod_of g p" using n0 eqs by (simp add: mod_of_def)
    have nv: "vi_v n = node_v g p" using n0 eqs by (simp add: node_v_def)
    have inv_rel: "k \<in> F \<Longrightarrow> (k \<in> mod_of g p) = (p \<in> dep_of g k)" for k
      using gok pF by (simp add: graph_ok_def)
    have sub: "dep_of g p \<inter> F \<subseteq> set K"
    proof -
      have "card (dep_of g p \<inter> F - set K) = 0" using cn pF c0 by auto
      then have "dep_of g p \<inter> F - set K = {}" using finite_dep_of[of g p] by simp
      then show ?thesis by blast
    qed
    have pre: "\<forall>i \<in> set (modifies n) \<inter> fst ` set deps. cnt store i \<ge> 1"
    proof
      fix i assume "i \<in> set (modifies n) \<inter> fst ` set deps"
      then have iF: "i \<in> F" and "i \<in> mod_of g p" using kF sm by auto
      then have "p \<in> dep_of g i \<inter> F - set K" using inv_rel pF pK by auto
      moreover have "finite (dep_of g i \<inter> F - set K)" using finite_dep_of[of g i] by simp
      ultimately have "card (dep_of g i \<inter> F - set K) \<ge> 1"
        by (metis One_nat_def Suc_leI card_gt_0_iff empty_iff)
      then show "cnt store i \<ge> 1" using cn iF by simp
    qed
    have "fst ` set deps \<subseteq> fst ` set store" using kF Fk by simp
    from decrementCounters_correct[OF ro this dm pre] obtain store' where
      dc: "decrementCounters deps (modifies n) store = Inr store'"
      and sg': "same_graph store store'"
      and cn': "\<forall>k. cnt store' k = (if k \<in> set (modifies n) \<inter> fst ` set deps then cnt store k - 1 else cnt store k)"
      by blast
    have "order_inv g F store' (xs @ ys) (K @ [p]) (ul @ [vi_v n])"
      unfolding order_inv_def
    proof (intro conjI)
      show "same_graph g store'" using sg sg' by (rule same_graph_trans)
      show "distinct ((K @ [p]) @ xs @ ys)" using di sp by auto
      show "set (K @ [p]) \<union> set (xs @ ys) = F" using un sp by auto
      show "topo g F (K @ [p])" using tp sub by (rule topo_snoc)
      show "ul @ [vi_v n] = map (node_v g) (K @ [p])" using ul nv by simp
      show "\<forall>k \<in> F. cnt store' k = int (card (dep_of g k \<inter> F - set (K @ [p])))"
      proof
        fix k assume k: "k \<in> F"
        let ?A = "dep_of g k \<inter> F - set K"
        have fin: "finite ?A" using finite_dep_of[of g k] by simp
        have A: "dep_of g k \<inter> F - set (K @ [p]) = ?A - {p}" by auto
        have c: "cnt store k = int (card ?A)" using cn k by simp
        show "cnt store' k = int (card (dep_of g k \<inter> F - set (K @ [p])))"
        proof (cases "p \<in> dep_of g k")
          case True
          then have "p \<in> ?A" using pF pK by simp
          then have "int (card (?A - {p})) = int (card ?A) - 1" using fin by (intro card_remove_int)
          moreover have "k \<in> set (modifies n) \<inter> fst ` set deps" using True k kF sm inv_rel by simp
          ultimately show ?thesis using cn'[rule_format, of k] c A by simp
        next
          case False
          then have "?A - {p} = ?A" by auto
          moreover have "k \<notin> set (modifies n) \<inter> fst ` set deps" using False k sm inv_rel by simp
          ultimately show ?thesis using cn'[rule_format, of k] c A by simp
        qed
      qed
    qed
    from "2.IH"[OF f refl n dc ro kF gok this]
    show ?thesis using f n dc by simp
  qed
qed

lemma ref_ok_entries: "ref_ok m \<Longrightarrow> e \<in> set m \<Longrightarrow> snd e = fst e"
proof -
  assume r: "ref_ok m" and e: "e \<in> set m"
  then have "distinct (map fst m)" by (simp add: ref_ok_def strict_sorted_iff)
  then have "map_of m (fst e) = Some (snd e)" using e by (intro map_of_is_SomeI) simp_all
  then show ?thesis using r by (auto simp: ref_ok_def)
qed

lemma makeUpdateOrder_correct:
  assumes "ref_ok deps" "fst ` set deps = F" "graph_ok g F"
  shows "(\<exists>store' K. makeUpdateOrder iv deps g = Inr (store', map (node_v g) K) \<and>
            same_graph g store' \<and> distinct K \<and> set K = F \<and> topo g F K) \<or>
         (makeUpdateOrder iv deps g = Inl AssertNextEval \<and>
            (\<exists>W. W \<noteq> {} \<and> W \<subseteq> F \<and> (\<forall>p \<in> W. \<exists>q \<in> W. q \<in> dep_of g p)))"
proof -
  have ent: "\<forall>e \<in> set deps. snd e = fst e" using assms(1) ref_ok_entries by blast
  then have ms: "map snd deps = map fst deps" by simp
  have di: "distinct (map fst deps)" using assms(1) by (simp add: ref_ok_def strict_sorted_iff)
  have "snd ` set deps = fst ` set deps" using ent by force
  then have p1: "snd ` set deps \<subseteq> fst ` set g"
    using assms(2,3) by (simp add: graph_ok_def)
  have p4: "\<forall>k n. map_of g k = Some n \<longrightarrow> distinct (dependsOn n)"
    using assms(3) by (simp add: graph_ok_def)
  from initCounters_correct[OF p1 ent di p4, of deps "[]"] obtain store1 where
    ic: "initCounters deps deps g [] = Inr (store1, map snd deps)"
    and sg: "same_graph g store1"
    and cn: "\<forall>k. cnt store1 k =
        (if k \<in> fst ` set deps then int (card (dep_of g k \<inter> fst ` set deps)) else cnt g k)"
    by (elim exE conjE) simp
  have "order_inv g F store1 (map snd deps) [] []"
    unfolding order_inv_def
  proof (intro conjI)
    show "same_graph g store1" by (rule sg)
    show "distinct ([] @ map snd deps)" unfolding ms using di by simp
    show "set [] \<union> set (map snd deps) = F" unfolding ms using assms(2) by simp
    show "\<forall>k \<in> F. cnt store1 k = int (card (dep_of g k \<inter> F - set []))"
      using cn assms(2) by simp
    show "topo g F []" by (simp add: topo_def)
    show "[] = map (node_v g) []" by simp
  qed
  from orderLoop_correct[OF assms this] show ?thesis
    unfolding makeUpdateOrder_def ic by simp
qed

subsection \<open>The three phases together\<close>

lemma wf_dep_keys: "wf_deps H d \<Longrightarrow> x \<in> dep_of d y \<Longrightarrow> x \<in> fst ` set d"
  using mod_of_keys[of y d x] by (simp add: wf_deps_def)

lemma wf_required_keys: "wf_deps H d \<Longrightarrow> required d D \<subseteq> fst ` set d \<union> D"
  by (rule required_closed) (auto dest: wf_dep_keys)

lemma node_ok_default: "node_ok H k (VarInfo_default c)"
  by (simp add: node_ok_def VarInfo_default_def)

lemma wf_with_defaults:
  "wf_deps H d \<Longrightarrow> \<forall>k. map_of d' k = with_defaults counter0 d A k \<Longrightarrow> wf_deps H d'"
  unfolding wf_deps_def
  by (auto simp: dep_of_with_defaults[of d' counter0 d A] mod_of_with_defaults[of d' counter0 d A]
        with_defaults_def node_ok_default split: if_splits)

lemma wf_same_graph: "wf_deps H d \<Longrightarrow> same_graph d d' \<Longrightarrow> wf_deps H d'"
proof -
  assume w: "wf_deps H d" and s: "same_graph d d'"
  have "map_of d' k = Some n' \<Longrightarrow> node_ok H k n'" for k n'
    using same_graph_lookup[OF s, of k n'] w by (auto simp: wf_deps_def node_ok_def)
  then show ?thesis
    using w by (simp add: wf_deps_def same_graph_dep_of[OF s] same_graph_mod_of[OF s])
qed

lemma wf_graph_ok: "wf_deps H d \<Longrightarrow> F \<subseteq> fst ` set d \<Longrightarrow> graph_ok d F"
  by (auto simp: wf_deps_def graph_ok_def node_ok_def strict_sorted_iff)

lemma extends_graph_with_defaults:
  assumes "\<forall>k. map_of d2 k = with_defaults counter0 d A k" "same_graph d2 d3"
  shows "extends_graph d d3"
  unfolding extends_graph_def
proof
  fix k
  have r: "rel_option (\<lambda>n n'. vi_v n' = vi_v n \<and> dependsOn n' = dependsOn n \<and> modifies n' = modifies n)
       (map_of d2 k) (map_of d3 k)"
    using assms(2) by (simp add: same_graph_def)
  have w: "map_of d2 k = with_defaults counter0 d A k" using assms(1) by simp
  show "case map_of d k of
       Some n \<Rightarrow> (\<exists>n'. map_of d3 k = Some n' \<and> vi_v n' = vi_v n \<and>
                     dependsOn n' = dependsOn n \<and> modifies n' = modifies n)
     | None \<Rightarrow> (case map_of d3 k of
                  None \<Rightarrow> True
                | Some n' \<Rightarrow> vi_v n' = None \<and> dependsOn n' = [] \<and> modifies n' = [])"
    using r w
    by (cases "map_of d k"; cases "map_of d3 k"; cases "map_of d2 k")
       (auto simp: with_defaults_def VarInfo_default_def split: if_splits)
qed

lemma makeUpdateList_cases:
  assumes wf: "wf_deps H (dependencies dm)"
    and d_def: "d = dependencies dm"
    and I_def: "I = getId ` H ` set iv" and D_def: "D = getId ` H ` set dv"
    and F_def: "F = relevant d I D"
  shows "(\<exists>dm' K. makeUpdateList H counter0 dm iv dv = Inr (dm', map (node_v (dependencies dm')) K) \<and>
            blockVars dm' = blockVars dm \<and> wf_deps H (dependencies dm') \<and>
            extends_graph d (dependencies dm') \<and>
            fst ` set (dependencies dm') = fst ` set d \<union> D \<and>
            distinct K \<and> set K = F \<and> topo d F K) \<or>
         (makeUpdateList H counter0 dm iv dv = Inl AssertNextEval \<and>
            (\<exists>W. W \<noteq> {} \<and> W \<subseteq> F \<and> (\<forall>p \<in> W. \<exists>q \<in> W. q \<in> dep_of d p)))"
proof -
  from makeUpdatePredecessors_correct[of H counter0 dv d] obtain d2 preds where
    mp: "makeUpdatePredecessors H counter0 dv d = Inr (d2, preds)"
    and kp: "fst ` set preds = required d D" and rp: "ref_ok preds"
    and wd: "\<forall>k. map_of d2 k = with_defaults counter0 d (required d D) k"
    unfolding D_def by blast
  have wf0: "wf_deps H d" using wf by (simp add: d_def)
  have de: "dep_of d2 = dep_of d" using wd by (rule dep_of_with_defaults)
  have mo: "mod_of d2 = mod_of d" using wd by (rule mod_of_with_defaults)
  have k2: "fst ` set d2 = fst ` set d \<union> required d D" using wd by (rule keys_with_defaults)
  have "D \<subseteq> required d D" by (auto intro: required.dependent)
  then have k2': "fst ` set d2 = fst ` set d \<union> D" using k2 wf_required_keys[OF wf0, of D] by auto
  have sub: "required d D \<subseteq> fst ` set d2" using k2 by simp
  from makeUpdateFollowers_correct[OF rp kp sub mo I_def] obtain deps where
    mf: "makeUpdateFollowers H iv preds d2 = Inr deps"
    and kf: "fst ` set deps = F" and rf: "ref_ok deps"
    unfolding F_def by blast
  have wf2: "wf_deps H d2" using wf0 wd by (rule wf_with_defaults)
  have "F \<subseteq> fst ` set d2" using sub relevant_required unfolding F_def by blast
  with wf2 have gok: "graph_ok d2 F" by (rule wf_graph_ok)
  from makeUpdateOrder_correct[OF rf kf gok, of iv]
  show ?thesis
  proof
    assume "\<exists>store' K. makeUpdateOrder iv deps d2 = Inr (store', map (node_v d2) K) \<and>
            same_graph d2 store' \<and> distinct K \<and> set K = F \<and> topo d2 F K"
    then obtain d3 K where mo3: "makeUpdateOrder iv deps d2 = Inr (d3, map (node_v d2) K)"
      and sg: "same_graph d2 d3" and K: "distinct K" "set K = F" "topo d2 F K" by blast
    let ?dm = "dm\<lparr>dependencies := d3\<rparr>"
    have "makeUpdateList H counter0 dm iv dv = Inr (?dm, map (node_v (dependencies ?dm)) K)"
      using mp mf mo3 same_graph_node_v[OF sg] by (simp add: makeUpdateList_def d_def)
    moreover have "wf_deps H (dependencies ?dm)" using wf2 sg by (simp add: wf_same_graph)
    moreover have "extends_graph d (dependencies ?dm)"
      using extends_graph_with_defaults[OF wd sg] by simp
    moreover have "fst ` set (dependencies ?dm) = fst ` set d \<union> D"
      using same_graph_keys[OF sg] k2' by simp
    moreover have "topo d F K" using K(3) by (simp add: topo_def de)
    moreover have "blockVars ?dm = blockVars dm" by simp
    ultimately show ?thesis using K(1,2) by blast
  next
    assume "makeUpdateOrder iv deps d2 = Inl AssertNextEval \<and>
            (\<exists>W. W \<noteq> {} \<and> W \<subseteq> F \<and> (\<forall>p \<in> W. \<exists>q \<in> W. q \<in> dep_of d2 p))"
    then have "makeUpdateList H counter0 dm iv dv = Inl AssertNextEval \<and>
            (\<exists>W. W \<noteq> {} \<and> W \<subseteq> F \<and> (\<forall>p \<in> W. \<exists>q \<in> W. q \<in> dep_of d p))"
      using mp mf by (simp add: makeUpdateList_def d_def de)
    then show ?thesis by blast
  qed
qed

subsection \<open>Cycles\<close>

lemma finite_relevant:
  "wf_deps H d \<Longrightarrow> finite D \<Longrightarrow> finite (relevant d I D)"
proof -
  assume w: "wf_deps H d" and f: "finite D"
  have "relevant d I D \<subseteq> required d D" using relevant_required by blast
  also have "\<dots> \<subseteq> fst ` set d \<union> D" using w by (rule wf_required_keys)
  finally show ?thesis using f by (auto intro: finite_subset)
qed

lemma stuck_cycle:
  assumes "W \<noteq> {}" "finite W" "W \<subseteq> F" "\<forall>p \<in> W. \<exists>q \<in> W. q \<in> dep_of d p"
  shows "has_cycle d F"
proof (rule ccontr)
  assume nc: "\<not> has_cycle d F"
  let ?R = "dep_edges d F \<inter> W \<times> W"
  have "finite ?R" using assms(2) by simp
  moreover have "acyclic ?R"
  proof -
    have "(c, c) \<notin> ?R\<^sup>+" for c
    proof
      assume "(c, c) \<in> ?R\<^sup>+"
      then have "(c, c) \<in> (dep_edges d F)\<^sup>+"
        by (rule trancl_mono) simp
      then show False using nc by (auto simp: has_cycle_def)
    qed
    then show ?thesis by (simp add: acyclic_def)
  qed
  ultimately have "wf (?R\<inverse>)" by (rule finite_acyclic_wf_converse)
  moreover obtain w where "w \<in> W" using assms(1) by blast
  ultimately obtain z where z: "z \<in> W" and m: "\<forall>y. (y, z) \<in> ?R\<inverse> \<longrightarrow> y \<notin> W"
    by (rule wfE_min) blast
  from assms(4) z obtain q where q: "q \<in> W" "q \<in> dep_of d z" by blast
  then have "(z, q) \<in> ?R" using z assms(3) by (auto simp: dep_edges_def)
  then show False using m q(1) by blast
qed

lemma topo_trancl:
  assumes "topo d F K" "set K = F"
  shows "(a, b) \<in> (dep_edges d F)\<^sup>+ \<Longrightarrow> \<forall>j < length K. K ! j = a \<longrightarrow> b \<in> set (take j K)"
proof (induction rule: trancl.induct)
  case (r_into_trancl a b)
  then show ?case using assms by (auto simp: dep_edges_def topo_def)
next
  case (trancl_into_trancl a b c)
  show ?case
  proof (intro allI impI)
    fix j assume j: "j < length K" "K ! j = a"
    with trancl_into_trancl.IH have "b \<in> set (take j K)" by blast
    then obtain i where i: "i < j" "K ! i = b"
      using j(1) by (auto simp: in_set_conv_nth)
    have il: "i < length K" using i(1) j(1) by simp
    have "c \<in> dep_of d b \<inter> F" using trancl_into_trancl.hyps(2) by (auto simp: dep_edges_def)
    moreover have "dep_of d (K ! i) \<inter> F \<subseteq> set (take i K)" using assms(1) il by (simp add: topo_def)
    ultimately have "c \<in> set (take i K)" using i(2) by blast
    then show "c \<in> set (take j K)"
      using i(1) set_take_subset_set_take[of i j K] by auto
  qed
qed

lemma topo_acyclic:
  assumes "topo d F K" "set K = F" "distinct K"
  shows "\<not> has_cycle d F"
proof
  assume "has_cycle d F"
  then obtain c where c: "(c, c) \<in> (dep_edges d F)\<^sup>+" by (auto simp: has_cycle_def)
  then have "c \<in> F" by (auto simp: dep_edges_def dest: tranclD)
  then obtain j where j: "j < length K" "K ! j = c" using assms(2) by (auto simp: in_set_conv_nth)
  with topo_trancl[OF assms(1,2) c] have "c \<in> set (take j K)" by blast
  then obtain i where "i < j" "K ! i = c" using j(1) by (auto simp: in_set_conv_nth)
  then show False using j assms(3) by (auto simp: nth_eq_iff_index_eq)
qed

subsection \<open>Built maps\<close>

lemma built_wf: "built H counter0 dm \<Longrightarrow> wf_deps H (dependencies dm)"
proof (induction rule: built.induct)
  case (constructed vars dm)
  then show ?case using DependencyMap_new_wf by blast
next
  case (resolved dm iv dv dm' ul)
  from makeUpdateList_cases[OF resolved.IH refl refl refl refl, of counter0 iv dv] resolved.hyps(2)
  show ?case by auto
next
  case (reset dm)
  then show ?case by (simp add: resetCounters_noop)
qed

lemma resolve_result:
  assumes "built H counter0 dm" "makeUpdateList H counter0 dm iv dv = Inr (dm', ul)"
  shows "\<exists>K. ul = map (node_v (dependencies dm')) K \<and>
     blockVars dm' = blockVars dm \<and> wf_deps H (dependencies dm') \<and>
     extends_graph (dependencies dm) (dependencies dm') \<and>
     fst ` set (dependencies dm') = fst ` set (dependencies dm) \<union> getId ` H ` set dv \<and>
     distinct K \<and>
     set K = relevant (dependencies dm) (getId ` H ` set iv) (getId ` H ` set dv) \<and>
     topo (dependencies dm) (relevant (dependencies dm) (getId ` H ` set iv) (getId ` H ` set dv)) K"
  using makeUpdateList_cases[OF built_wf[OF assms(1)] refl refl refl refl, of counter0 iv dv] assms(2)
  by auto

lemma resolve_error:
  assumes "built H counter0 dm" "makeUpdateList H counter0 dm iv dv = Inl e"
  shows "e = AssertNextEval \<and>
     has_cycle (dependencies dm) (relevant (dependencies dm) (getId ` H ` set iv) (getId ` H ` set dv))"
proof -
  let ?d = "dependencies dm"
  let ?F = "relevant ?d (getId ` H ` set iv) (getId ` H ` set dv)"
  note w = built_wf[OF assms(1)]
  from makeUpdateList_cases[OF w refl refl refl refl, of counter0 iv dv] assms(2)
  obtain W where e: "e = AssertNextEval" and W: "W \<noteq> {}" "W \<subseteq> ?F" "\<forall>p \<in> W. \<exists>q \<in> W. q \<in> dep_of ?d p"
    by auto
  have "finite ?F" using w by (rule finite_relevant) simp
  then have "finite W" using W(2) by (rule rev_finite_subset)
  from stuck_cycle[OF W(1) this W(2,3)] e show ?thesis by simp
qed

lemma extends_graph_dep_of: "extends_graph d d' \<Longrightarrow> dep_of d' k = dep_of d k"
  unfolding extends_graph_def
  by (erule_tac x = k in allE) (auto simp: dep_of_def split: option.splits)



subsection \<open>Identifiers that name no variable node\<close>








lemma resolve_total:
  assumes "built H counter0 dm"
  shows "(has_cycle (dependencies dm)
            (relevant (dependencies dm) (getId ` H ` set iv) (getId ` H ` set dv)) \<and>
          makeUpdateList H counter0 dm iv dv = Inl AssertNextEval) \<or>
         (\<not> has_cycle (dependencies dm)
            (relevant (dependencies dm) (getId ` H ` set iv) (getId ` H ` set dv)) \<and>
          (\<exists>dm' K. makeUpdateList H counter0 dm iv dv = Inr (dm', map (node_v (dependencies dm')) K) \<and>
             distinct K \<and>
             set K = relevant (dependencies dm) (getId ` H ` set iv) (getId ` H ` set dv) \<and>
             topo (dependencies dm)
               (relevant (dependencies dm) (getId ` H ` set iv) (getId ` H ` set dv)) K))"
proof (cases "makeUpdateList H counter0 dm iv dv")
  case (Inl e)
  from resolve_error[OF assms Inl] Inl show ?thesis by simp
next
  case (Inr r)
  obtain dm' ul where r: "r = (dm', ul)" by (cases r)
  from resolve_result[OF assms, of iv dv dm' ul] Inr r obtain K where
    K: "ul = map (node_v (dependencies dm')) K" "distinct K"
    "set K = relevant (dependencies dm) (getId ` H ` set iv) (getId ` H ` set dv)"
    "topo (dependencies dm) (relevant (dependencies dm) (getId ` H ` set iv) (getId ` H ` set dv)) K"
    by blast
  from topo_acyclic[OF K(4,3,2)] have "\<not> has_cycle (dependencies dm)
            (relevant (dependencies dm) (getId ` H ` set iv) (getId ` H ` set dv))" .
  moreover have "makeUpdateList H counter0 dm iv dv = Inr (dm', map (node_v (dependencies dm')) K)"
    using Inr r K(1) by simp
  ultimately show ?thesis using K(2,3,4) by blast
qed

section \<open>The examples, evaluated\<close>

lemmas eval_defs =
  DependencyMap_new_def constructMap_def map_count_def VarInfo_init_def
  DependenciesGetter_def nextEntry_def insertModifies_def at_update_def VarInfo_default_def
  subscript_def makeUpdateList_def makeUpdatePredecessors_def predInit_def predVisit_def
  makeUpdateFollowers_def follInit_def follVisit_def makeUpdateOrder_def countDeps_def Let_def
  no_counter_def

lemma chain_new: "DependencyMap_new chain_heap no_counter chain_tree = Inr chain_dm"
  by (simp add: eval_defs chain_heap_def chain_tree_def chain_map_def chain_dm_def)

lemma chain_resolve:
  "makeUpdateList chain_heap no_counter chain_dm [0] [2] = Inr (chain_dm, [Some 0, Some 1, Some 2])"
  by (simp add: eval_defs chain_heap_def chain_map_def chain_dm_def)

lemma chain_built: "built chain_heap no_counter chain_dm"
  by (rule built.constructed[OF chain_new])

lemma cycle_new: "DependencyMap_new cycle_heap no_counter cycle_tree = Inr cycle_dm"
  by (simp add: eval_defs cycle_heap_def cycle_tree_def cycle_dm_def)

lemma cycle_has_cycle:
  "has_cycle (dependencies cycle_dm)
     (relevant (dependencies cycle_dm) (getId ` cycle_heap ` set [0]) (getId ` cycle_heap ` set [1]))"
proof -
  let ?d = "dependencies cycle_dm"
  let ?I = "getId ` cycle_heap ` set [0]" and ?D = "getId ` cycle_heap ` set [1]"
  have d1: "dep_of ?d 1 = {2}" and d2: "dep_of ?d 2 = {1}" and m1: "mod_of ?d 1 = {2}"
    by (simp_all add: dep_of_def mod_of_def cycle_dm_def)
  have I: "1 \<in> ?I" and D: "2 \<in> ?D" by (simp_all add: cycle_heap_def)
  have r2: "2 \<in> required ?d ?D" using D by (rule required.dependent)
  have r1: "1 \<in> required ?d ?D" using r2 d2 by (auto intro: required.dependsOn)
  have f1: "1 \<in> relevant ?d ?I ?D" using I r1 by (rule relevant.independent)
  have f2: "2 \<in> relevant ?d ?I ?D" using f1 m1 r2 by (auto intro: relevant.modifies)
  have "(1, 2) \<in> dep_edges ?d (relevant ?d ?I ?D)" using f1 f2 d1 by (simp add: dep_edges_def)
  moreover have "(2, 1) \<in> dep_edges ?d (relevant ?d ?I ?D)" using f1 f2 d2 by (simp add: dep_edges_def)
  ultimately have "(1, 1) \<in> (dep_edges ?d (relevant ?d ?I ?D))\<^sup>+"
    by (rule trancl_into_trancl2[OF _ r_into_trancl])
  then show ?thesis unfolding has_cycle_def by blast
qed

lemma lone_new: "DependencyMap_new lone_heap no_counter lone_tree = Inr lone_dm"
  by (simp add: eval_defs lone_heap_def lone_tree_def lone_dm_def)

lemma lone_resolve: "makeUpdateList lone_heap no_counter lone_dm [] [0] = Inr (lone_dm', [])"
  by (simp add: eval_defs lone_heap_def lone_dm_def lone_dm'_def)




section \<open>The resolver: makeUpdateList\<close>

text \<open>
  C1: topological validity. In a list that \<^verbatim>\<open>makeUpdateList\<close> returns for a built
  map, take a variable \<^verbatim>\<open>pv\<close> at position \<^verbatim>\<open>j\<close> and a variable \<^verbatim>\<open>pw\<close> at
  position \<^verbatim>\<open>i\<close>: when the identifier of \<^verbatim>\<open>pw\<close> is in the \<^verbatim>\<open>dependsOn\<close> set of
  the node of \<^verbatim>\<open>pv\<close>, then \<^verbatim>\<open>pw\<close> stands strictly before \<^verbatim>\<open>pv\<close>.
\<close>

theorem update_list_topological:
  assumes "built H counter0 dm" "makeUpdateList H counter0 dm iv dv = Inr (dm', ul)"
    and "j < length ul" "i < length ul" "ul ! j = Some pv" "ul ! i = Some pw"
    and "map_of (dependencies dm') (getId (H pv)) = Some n"
    and "getId (H pw) \<in> set (dependsOn n)"
  shows "i < j"
proof -
  let ?d = "dependencies dm" and ?d' = "dependencies dm'"
  let ?F = "relevant ?d (getId ` H ` set iv) (getId ` H ` set dv)"
  from resolve_result[OF assms(1,2)] obtain K where K: "ul = map (node_v ?d') K"
    "wf_deps H ?d'" "extends_graph ?d ?d'" "distinct K" "set K = ?F" "topo ?d ?F K"
    by blast
  have idn: "node_v ?d' k = Some p \<Longrightarrow> getId (H p) = k" for k p
    using K(2) by (auto simp: node_v_def wf_deps_def node_ok_def split: option.splits)
  have lj: "j < length K" and li: "i < length K" using assms(3,4) K(1) by simp_all
  have kj: "K ! j = getId (H pv)" using assms(5) K(1) lj idn by simp
  have ki: "K ! i = getId (H pw)" using assms(6) K(1) li idn by simp
  have "dep_of ?d (K ! j) = set (dependsOn n)"
    using extends_graph_dep_of[OF K(3), of "K ! j"] assms(7) kj by (simp add: dep_of_def)
  moreover have "K ! i \<in> ?F" using li K(5) nth_mem[of i K] by simp
  ultimately have "K ! i \<in> dep_of ?d (K ! j) \<inter> ?F" using ki assms(8) by simp
  then have "K ! i \<in> set (take j K)" using K(6) lj by (auto simp: topo_def)
  then obtain i' where "i' < j" "K ! i' = K ! i" using lj by (auto simp: in_set_conv_nth)
  then show ?thesis using K(4) li lj by (auto simp: nth_eq_iff_index_eq)
qed

theorem update_list_topological_witness:
  "built chain_heap no_counter chain_dm \<and>
   makeUpdateList chain_heap no_counter chain_dm [0] [2] = Inr (chain_dm, [Some 0, Some 1, Some 2]) \<and>
   (1::nat) < length [Some (0::nat), Some 1, Some 2] \<and>
   (0::nat) < length [Some (0::nat), Some 1, Some 2] \<and>
   [Some 0, Some 1, Some 2] ! 1 = Some (1::nat) \<and>
   [Some 0, Some 1, Some 2] ! 0 = Some (0::nat) \<and>
   map_of (dependencies chain_dm) (getId (chain_heap 1)) =
     Some \<lparr>vi_v = Some 1, dependsOn = [1], modifies = [3], counter = 0\<rparr> \<and>
   getId (chain_heap 0) \<in> set (dependsOn \<lparr>vi_v = Some 1, dependsOn = [1], modifies = [3], counter = 0\<rparr>) \<and>
   (0::nat) < 1"
proof -
  have a: "(1::nat) < length [Some (0::nat), Some 1, Some 2]" by simp
  have b: "(0::nat) < length [Some (0::nat), Some 1, Some 2]" by simp
  have c: "[Some 0, Some 1, Some 2] ! 1 = Some (1::nat)" by simp
  have d: "[Some 0, Some 1, Some 2] ! 0 = Some (0::nat)" by simp
  have e: "map_of (dependencies chain_dm) (getId (chain_heap 1)) =
     Some \<lparr>vi_v = Some 1, dependsOn = [1], modifies = [3], counter = 0\<rparr>"
    by (simp add: chain_dm_def chain_map_def chain_heap_def)
  have f: "getId (chain_heap 0) \<in> set (dependsOn \<lparr>vi_v = Some 1, dependsOn = [1], modifies = [3], counter = 0\<rparr>)"
    by (simp add: chain_heap_def)
  from update_list_topological[OF chain_built chain_resolve a b c d e f]
  show ?thesis using chain_built chain_resolve a b c d e f by blast
qed

text \<open>
  C2: completeness and minimality. A list that \<^verbatim>\<open>makeUpdateList\<close> returns for a
  built map holds the variables of the nodes of the relevant subgraph, each node
  once and no other node: the nodes that the dependent variables require and that
  the independent variables reach along \<^verbatim>\<open>modifies\<close> inside the required set.
  A variable of the list has the identifier of its node.
\<close>

theorem update_list_complete:
  assumes "built H counter0 dm" "makeUpdateList H counter0 dm iv dv = Inr (dm', ul)"
  shows "\<exists>K. distinct K \<and>
     set K = relevant (dependencies dm) (getId ` H ` set iv) (getId ` H ` set dv) \<and>
     ul = map (node_v (dependencies dm')) K \<and>
     (\<forall>k \<in> set K. \<forall>pv. node_v (dependencies dm') k = Some pv \<longrightarrow> getId (H pv) = k)"
proof -
  from resolve_result[OF assms] obtain K where K: "ul = map (node_v (dependencies dm')) K"
    "wf_deps H (dependencies dm')" "distinct K"
    "set K = relevant (dependencies dm) (getId ` H ` set iv) (getId ` H ` set dv)"
    by blast
  have "node_v (dependencies dm') k = Some pv \<Longrightarrow> getId (H pv) = k" for k pv
    using K(2) by (auto simp: node_v_def wf_deps_def node_ok_def split: option.splits)
  then show ?thesis using K by blast
qed

theorem update_list_complete_witness:
  "built chain_heap no_counter chain_dm \<and>
   makeUpdateList chain_heap no_counter chain_dm [0] [2] = Inr (chain_dm, [Some 0, Some 1, Some 2]) \<and>
   (\<exists>K. distinct K \<and>
      set K = relevant (dependencies chain_dm) (getId ` chain_heap ` set [0]) (getId ` chain_heap ` set [2]) \<and>
      [Some 0, Some 1, Some 2] = map (node_v (dependencies chain_dm)) K \<and>
      (\<forall>k \<in> set K. \<forall>pv. node_v (dependencies chain_dm) k = Some pv \<longrightarrow> getId (chain_heap pv) = k))"
  using chain_built chain_resolve update_list_complete[OF chain_built chain_resolve] by blast

text \<open>
  The claim C3 as the spec states it fails: for the cycle of the spec (\<^verbatim>\<open>A\<close>
  reads \<^verbatim>\<open>B\<close> and \<^verbatim>\<open>B\<close> reads \<^verbatim>\<open>A\<close>, both in the relevant subgraph)
  \<^verbatim>\<open>makeUpdateList\<close> stops at the failed \<^verbatim>\<open>assert(nextEval != 0)\<close>. That ends the
  program: no error reaches the caller.
\<close>

theorem cycle_not_reported:
  "DependencyMap_new cycle_heap no_counter cycle_tree = Inr cycle_dm \<and>
   dep_of (dependencies cycle_dm) 1 = {2} \<and>
   dep_of (dependencies cycle_dm) 2 = {1} \<and>
   1 \<in> relevant (dependencies cycle_dm) (getId ` cycle_heap ` set [0]) (getId ` cycle_heap ` set [1]) \<and>
   2 \<in> relevant (dependencies cycle_dm) (getId ` cycle_heap ` set [0]) (getId ` cycle_heap ` set [1]) \<and>
   makeUpdateList cycle_heap no_counter cycle_dm [0] [1] = Inl AssertNextEval \<and>
   \<not> reaches_caller AssertNextEval"
proof -
  let ?d = "dependencies cycle_dm"
  let ?I = "getId ` cycle_heap ` set [0]" and ?D = "getId ` cycle_heap ` set [1]"
  have d1: "dep_of ?d 1 = {2}" and d2: "dep_of ?d 2 = {1}" and m1: "mod_of ?d 1 = {2}"
    by (simp_all add: dep_of_def mod_of_def cycle_dm_def)
  have I: "1 \<in> ?I" and D: "2 \<in> ?D" by (simp_all add: cycle_heap_def)
  have r2: "2 \<in> required ?d ?D" using D by (rule required.dependent)
  have r1: "1 \<in> required ?d ?D" using r2 d2 by (auto intro: required.dependsOn)
  have f1: "1 \<in> relevant ?d ?I ?D" using I r1 by (rule relevant.independent)
  have f2: "2 \<in> relevant ?d ?I ?D" using f1 m1 r2 by (auto intro: relevant.modifies)
  have e: "makeUpdateList cycle_heap no_counter cycle_dm [0] [1] = Inl AssertNextEval"
    by (simp add: eval_defs cycle_heap_def cycle_dm_def)
  have n: "\<not> reaches_caller AssertNextEval" by simp
  show ?thesis using cycle_new d1 d2 f1 f2 e n by (intro conjI)
qed

text \<open>
  C3, amended: a cycle stops the resolver, by an assertion. When the relevant
  subgraph of a built map has a dependency cycle, \<^verbatim>\<open>makeUpdateList\<close> ends in the
  failed assertion \<^verbatim>\<open>assert(nextEval != 0)\<close> (assertions compiled in): it does not
  run forever and it returns no list, and the failure is the end of the program,
  not an error that reaches the caller.
\<close>

theorem cycle_aborts:
  assumes "built H counter0 dm"
    and "has_cycle (dependencies dm)
           (relevant (dependencies dm) (getId ` H ` set iv) (getId ` H ` set dv))"
  shows "makeUpdateList H counter0 dm iv dv = Inl AssertNextEval \<and>
     \<not> reaches_caller AssertNextEval"
  using resolve_total[OF assms(1), of iv dv] assms(2) by simp

theorem cycle_aborts_witness:
  "built cycle_heap no_counter cycle_dm \<and>
   has_cycle (dependencies cycle_dm)
     (relevant (dependencies cycle_dm) (getId ` cycle_heap ` set [0]) (getId ` cycle_heap ` set [1])) \<and>
   makeUpdateList cycle_heap no_counter cycle_dm [0] [1] = Inl AssertNextEval \<and>
   \<not> reaches_caller AssertNextEval"
proof -
  have b: "built cycle_heap no_counter cycle_dm" by (rule built.constructed[OF cycle_new])
  note T = cycle_aborts[OF b cycle_has_cycle]
  show ?thesis using b cycle_has_cycle T[THEN conjunct1] T[THEN conjunct2] by (intro conjI)
qed

text \<open>
  The claim C7 as the spec states it fails: asking for the update list of a
  dependent variable that has no node (here the constant \<^verbatim>\<open>A\<close>) inserts a node.
\<close>

theorem resolve_adds_node:
  "DependencyMap_new lone_heap no_counter lone_tree = Inr lone_dm \<and>
   makeUpdateList lone_heap no_counter lone_dm [] [0] = Inr (lone_dm', []) \<and>
   fst ` set (dependencies lone_dm) = {2} \<and>
   fst ` set (dependencies lone_dm') = {1, 2} \<and>
   fst ` set (dependencies lone_dm') \<noteq> fst ` set (dependencies lone_dm)"
  by (simp add: lone_new lone_resolve) (simp add: lone_dm_def lone_dm'_def)

text \<open>
  C7, amended: the frame of \<^verbatim>\<open>makeUpdateList\<close>. After a call on a built map, the
  scope tree is the same, every node is still there with the same variable,
  \<^verbatim>\<open>dependsOn\<close> and \<^verbatim>\<open>modifies\<close>, and the identifiers of the map are those it
  had and those of the dependent variables: a dependent variable without a node
  gets a default node, without variable and without edges. When every dependent
  variable has a node, the identifiers are the same.
\<close>

theorem resolve_frame:
  assumes "built H counter0 dm" "makeUpdateList H counter0 dm iv dv = Inr (dm', ul)"
  shows "blockVars dm' = blockVars dm \<and>
     fst ` set (dependencies dm') = fst ` set (dependencies dm) \<union> getId ` H ` set dv \<and>
     extends_graph (dependencies dm) (dependencies dm')"
  using resolve_result[OF assms] by blast

theorem resolve_frame_witness:
  "built lone_heap no_counter lone_dm \<and>
   makeUpdateList lone_heap no_counter lone_dm [] [0] = Inr (lone_dm', []) \<and>
   blockVars lone_dm' = blockVars lone_dm \<and>
   fst ` set (dependencies lone_dm') = fst ` set (dependencies lone_dm) \<union> getId ` lone_heap ` set [0] \<and>
   extends_graph (dependencies lone_dm) (dependencies lone_dm')"
proof -
  have b: "built lone_heap no_counter lone_dm" by (rule built.constructed[OF lone_new])
  from resolve_frame[OF b lone_resolve] show ?thesis using b lone_resolve by blast
qed




section \<open>Construction\<close>

text \<open>
  C4: when two variables of the scope tree that are not constant have the same
  identifier (the later one finds the identifier in the map), the constructor
  throws \<^verbatim>\<open>SchnekException\<close>: the caller gets the error and no map.
\<close>

theorem duplicate_identifier_rejected:
  "\<not> distinct (nodeIds H (flatten vars)) \<Longrightarrow>
   DependencyMap_new H counter0 vars = Inl SchnekException"
proof -
  assume "\<not> distinct (nodeIds H (flatten vars))"
  then have "constructMapVariables H counter0 (flatten vars) [] = Inl SchnekException"
    by (intro constructMapVariables_duplicate) simp
  then show ?thesis
    by (simp add: DependencyMap_new_def constructMap_def constructMapRecursive_flatten)
qed

theorem duplicate_identifier_rejected_witness:
  "\<not> distinct (nodeIds dup_heap (flatten dup_tree)) \<and>
   DependencyMap_new dup_heap no_counter dup_tree = Inl SchnekException"
proof -
  have h: "\<not> distinct (nodeIds dup_heap (flatten dup_tree))"
    by (simp add: nodeIds_def dup_heap_def dup_tree_def)
  show ?thesis using h duplicate_identifier_rejected[OF h, of no_counter] by simp
qed

text \<open>
  C5: in the map the constructor returns, for any two nodes \<^verbatim>\<open>x\<close> and \<^verbatim>\<open>y\<close>,
  \<^verbatim>\<open>x\<close> is in the \<^verbatim>\<open>dependsOn\<close> of \<^verbatim>\<open>y\<close> exactly when \<^verbatim>\<open>y\<close> is in the
  \<^verbatim>\<open>modifies\<close> of \<^verbatim>\<open>x\<close>.
\<close>

theorem modifies_inverse_of_dependsOn:
  assumes "DependencyMap_new H counter0 vars = Inr dm"
    and "map_of (dependencies dm) x = Some nx"
    and "map_of (dependencies dm) y = Some ny"
  shows "(x \<in> set (dependsOn ny)) = (y \<in> set (modifies nx))"
proof -
  from DependencyMap_new_wf[OF assms(1)]
  have "(y \<in> mod_of (dependencies dm) x) = (x \<in> dep_of (dependencies dm) y)"
    by (simp add: wf_deps_def)
  then show ?thesis using assms(2,3) by (simp add: mod_of_def dep_of_def)
qed

theorem modifies_inverse_of_dependsOn_witness:
  "DependencyMap_new chain_heap no_counter chain_tree = Inr chain_dm \<and>
   map_of (dependencies chain_dm) 1 =
     Some \<lparr>vi_v = Some 0, dependsOn = [], modifies = [2], counter = 0\<rparr> \<and>
   map_of (dependencies chain_dm) 2 =
     Some \<lparr>vi_v = Some 1, dependsOn = [1], modifies = [3], counter = 0\<rparr> \<and>
   (1 \<in> set (dependsOn \<lparr>vi_v = Some 1, dependsOn = [1], modifies = [3], counter = 0\<rparr>)) =
   (2 \<in> set (modifies \<lparr>vi_v = Some 0, dependsOn = [], modifies = [2], counter = 0\<rparr>))"
proof -
  have b: "map_of (dependencies chain_dm) 1 =
     Some \<lparr>vi_v = Some 0, dependsOn = [], modifies = [2], counter = 0\<rparr>"
    by (simp add: chain_dm_def chain_map_def)
  have c: "map_of (dependencies chain_dm) 2 =
     Some \<lparr>vi_v = Some 1, dependsOn = [1], modifies = [3], counter = 0\<rparr>"
    by (simp add: chain_dm_def chain_map_def)
  show ?thesis using chain_new b c modifies_inverse_of_dependsOn[OF chain_new b c] by simp
qed

section \<open>resetCounters\<close>

text \<open>
  C6, as the code has it. The map of the scenario is built and one update list is
  made for the independent variable \<^verbatim>\<open>A\<close> and the dependent variable \<^verbatim>\<open>C\<close>: the
  counter of the node of \<^verbatim>\<open>B\<close> is then 0. \<^verbatim>\<open>resetCounters\<close> leaves it at 0,
  while the node depends on one identifier: the counter is not the size of
  \<^verbatim>\<open>dependsOn\<close>.
\<close>

theorem resetCounters_counter_not_size:
  "DependencyMap_new chain_heap no_counter chain_tree = Inr chain_dm \<and>
   makeUpdateList chain_heap no_counter chain_dm [0] [2] = Inr (chain_dm, [Some 0, Some 1, Some 2]) \<and>
   map_of (dependencies (resetCounters chain_dm)) 2 =
     Some \<lparr>vi_v = Some 1, dependsOn = [1], modifies = [3], counter = 0\<rparr> \<and>
   counter \<lparr>vi_v = Some 1, dependsOn = [1], modifies = [3], counter = 0\<rparr> \<noteq>
     int (length (dependsOn \<lparr>vi_v = Some 1, dependsOn = [1], modifies = [3], counter = 0\<rparr>))"
  by (simp add: chain_new chain_resolve resetCounters_noop) (simp add: chain_dm_def chain_map_def)

section \<open>DependencyUpdater\<close>

text \<open>
  C9: \<^verbatim>\<open>addIndependent\<close> inserts the variable into the independent set and clears
  the validity flag; \<^verbatim>\<open>addDependent\<close> does the same with the dependent set. Every
  other member keeps its value.
\<close>

theorem add_inserts_and_invalidates:
  "set (independentVars (addIndependent u v)) = insert v (set (independentVars u)) \<and>
   isValid (addIndependent u v) = False \<and>
   dependentVars (addIndependent u v) = dependentVars u \<and>
   upd_dependencies (addIndependent u v) = upd_dependencies u \<and>
   updateList (addIndependent u v) = updateList u \<and>
   set (dependentVars (addDependent u v)) = insert v (set (dependentVars u)) \<and>
   isValid (addDependent u v) = False \<and>
   independentVars (addDependent u v) = independentVars u \<and>
   upd_dependencies (addDependent u v) = upd_dependencies u \<and>
   updateList (addDependent u v) = updateList u"
  by (simp add: addIndependent_def addDependent_def set_set_insert)

text \<open>
  C10: a newly constructed \<^verbatim>\<open>DependencyUpdater\<close> is valid, its two sets are empty
  and it holds no list.
\<close>

theorem DependencyUpdater_new_valid:
  "isValid (DependencyUpdater_new dm) = True \<and>
   independentVars (DependencyUpdater_new dm) = [] \<and>
   dependentVars (DependencyUpdater_new dm) = [] \<and>
   updateList (DependencyUpdater_new dm) = [] \<and>
   upd_dependencies (DependencyUpdater_new dm) = dm"
  by (simp add: DependencyUpdater_new_def)

end
